theory Spec2Isabelle
  imports Complex_Main "HOL-Library.Word" "HOL-Library.Log_Nat" "HOL-Library.Countable"
begin

unbundle bit_operations_syntax

section \<open>Amounts\<close>

text \<open>
  \<^verbatim>\<open>CAmount\<close> is a signed 64-bit integer (\<^verbatim>\<open>int64_t\<close>).  It is modelled as a 64-bit
  word: \<open>+\<close> and \<open>-\<close> wrap around, and every comparison of the source reads the word
  as two's complement with \<open>sint\<close>.  \<^verbatim>\<open>uint64_t\<close> and \<^verbatim>\<open>uint32_t\<close> are words
  compared unsigned.
\<close>

type_synonym CAmount = "64 word"
type_synonym uint64 = "64 word"
type_synonym uint32 = "32 word"
type_synonym uint256 = nat


text \<open>
  Modelled from the spec: \<^verbatim>\<open>MoneyRange\<close> (\<^verbatim>\<open>amount.h\<close>) tests that an amount lies in
  \<open>[0, MAX_MONEY]\<close>.  The constant \<^verbatim>\<open>MAX_MONEY\<close> is not in the sources, so it is the
  first argument.
\<close>

definition MoneyRange :: "CAmount \<Rightarrow> CAmount \<Rightarrow> bool" where
  "MoneyRange MAX_MONEY a \<longleftrightarrow> 0 \<le> sint a \<and> sint a \<le> sint MAX_MONEY"

section \<open>Double-precision arithmetic\<close>

text \<open>
  A finite \<^verbatim>\<open>double\<close> is the rational number it stands for.  \<open>double_round\<close> is the
  rounding of IEEE 754 binary64 (to nearest, ties to even): the magnitude is scaled by
  \<open>2^1074\<close>, so that the spacing of the doubles around it is \<open>2^k\<close> with
  \<open>k = max 0 (bitlen - 53)\<close> (\<open>k = 0\<close> in the subnormal range), and rounded to a
  multiple of that spacing.  Magnitudes from \<open>2^1024\<close> on, which round to infinity in
  C++, are outside the model.
\<close>

definition round_half_even :: "rat \<Rightarrow> int" where
  "round_half_even q =
     (let f = \<lfloor>q\<rfloor>; d = q - of_int f in
      if d < 1 / 2 then f else if 1 / 2 < d then f + 1 else if even f then f else f + 1)"

definition double_round :: "rat \<Rightarrow> rat" where
  "double_round x =
     (let y = \<bar>x\<bar> * 2 ^ 1074;
          U = 2 ^ nat (bitlen \<lfloor>y\<rfloor> - 53);
          m = round_half_even (y / of_int U)
      in sgn x * of_int (m * U) / 2 ^ 1074)"



section \<open>Chain parameters (chainparams.h, chainparams.cpp)\<close>

text \<open>
  The fields of \<^verbatim>\<open>Consensus::Params\<close> that the monetary schedule reads.  The C++
  \<^verbatim>\<open>int\<close> fields hold small positive constants and are kept as integers; the
  \<^verbatim>\<open>double\<close> field \<^verbatim>\<open>nDecayRatio\<close> holds the double nearest to the literal it is
  assigned (\<^verbatim>\<open>0.9\<close> is \<open>double_round (9 / 10)\<close>, not \<open>9 / 10\<close>).
\<close>

record ConsensusParams =
  nBlocksPerDay :: int
  nDaysPerCentury :: int
  nDecayRatio :: rat
  nBlocksPerCentury :: int
  nSubsidyHalvingInterval :: int
  nTotalInterest :: uint64
  nLockInterestBlocksThreshould :: "int list"

text \<open>
  The constructors \<^verbatim>\<open>CMainParams()\<close>, \<^verbatim>\<open>CTestNetParams()\<close> and \<^verbatim>\<open>CRegTestParams()\<close>
  assign the fields in this order; every later field is computed from
  \<^verbatim>\<open>nBlocksPerDay\<close> as the source does.  The regtest constructor does not assign
  \<^verbatim>\<open>nTotalInterest\<close>; the parameter object is static, so the field keeps the zero of
  static initialisation.
\<close>

definition mkParams :: "int \<Rightarrow> int \<Rightarrow> rat \<Rightarrow> uint64 \<Rightarrow> ConsensusParams" where
  "mkParams blocksPerDay daysPerCentury decayRatio totalInterest =
     \<lparr> nBlocksPerDay = blocksPerDay,
       nDaysPerCentury = daysPerCentury,
       nDecayRatio = double_round decayRatio,
       nBlocksPerCentury = blocksPerDay * daysPerCentury,
       nSubsidyHalvingInterval = blocksPerDay * daysPerCentury,
       nTotalInterest = totalInterest,
       nLockInterestBlocksThreshould =
         [16 * blocksPerDay, 32 * blocksPerDay, 64 * blocksPerDay, 128 * blocksPerDay,
          256 * blocksPerDay, 512 * blocksPerDay, 1024 * blocksPerDay, 1024 * blocksPerDay] \<rparr>"

definition CMainParams :: ConsensusParams where
  "CMainParams = mkParams 960 300 (9 / 10) 240000000000000000"

definition CTestNetParams :: ConsensusParams where
  "CTestNetParams = mkParams 960 300 (9 / 10) 240000000000000000"

definition CRegTestParams :: ConsensusParams where
  "CRegTestParams = mkParams 10 30 (9 / 10) 0"

definition BlocksPerDay :: "ConsensusParams \<Rightarrow> int" where
  "BlocksPerDay P = nBlocksPerDay P"


text \<open>
  \<^verbatim>\<open>AdjustToLockInterestThreshold\<close>: the loop runs \<open>i = 7, 6, ..., 0\<close> and returns the
  first threshold that \<open>lockBlocks\<close> reaches; \<open>AdjustFrom thr lockBlocks (Suc i)\<close> is
  the loop about to test index \<open>i\<close>.
\<close>

fun AdjustFrom :: "int list \<Rightarrow> int \<Rightarrow> nat \<Rightarrow> int" where
  "AdjustFrom thr lockBlocks 0 = 0"
| "AdjustFrom thr lockBlocks (Suc i) =
     (if lockBlocks \<ge> thr ! i then thr ! i else AdjustFrom thr lockBlocks i)"

definition AdjustToLockInterestThreshold :: "ConsensusParams \<Rightarrow> int \<Rightarrow> int" where
  "AdjustToLockInterestThreshold P lockBlocks =
     AdjustFrom (nLockInterestBlocksThreshould P) lockBlocks 8"





section \<open>The lock-interest RPC (rpc/interest.cpp)\<close>

text \<open>
  Every \<^verbatim>\<open>throw\<close>, failed \<^verbatim>\<open>assert\<close> and out-of-range read of the modelled code is a
  value of this type.
\<close>

datatype error =
    ValueOutOfRange
  | HelpRequested
  | RPC_INVALID_PARAMETER
  | AssertionFailed
  | TestBlockValidityFailed
  | IndexOutOfRange

text \<open>
  The request as \<^verbatim>\<open>getlockinterest\<close> reads it: the help flag, the number of
  parameters, \<^verbatim>\<open>params[0].get_int()\<close> and \<^verbatim>\<open>AmountFromValue(params[1])\<close> (the JSON
  layer is outside the sources at hand, so the two parsed values stand for the
  parameters).
\<close>

record JSONRPCRequest =
  fHelp :: bool
  nParams :: nat
  lockdays :: int
  principal :: CAmount

record LockInterestResult =
  locktime :: int
  interest :: CAmount

text \<open>A C++ \<^verbatim>\<open>int\<close> product, wrapped to 32 bits two's complement.\<close>

definition int32_mul :: "int \<Rightarrow> int \<Rightarrow> int" where
  "int32_mul a b = sint (word_of_int (a * b) :: 32 word)"

text \<open>
  \<^verbatim>\<open>getlockinterest\<close>.  \<^verbatim>\<open>GetInterest(principal, locktime, height)\<close> is declared in
  \<^verbatim>\<open>validation.h\<close>, outside the sources at hand, and is the argument \<open>GetInterestFn\<close>;
  \<open>chainHeight\<close> is \<^verbatim>\<open>chainActive.Height()\<close>.
\<close>

definition getlockinterest ::
  "ConsensusParams \<Rightarrow> (CAmount \<Rightarrow> int \<Rightarrow> int \<Rightarrow> CAmount) \<Rightarrow> int \<Rightarrow> JSONRPCRequest
     \<Rightarrow> error + LockInterestResult" where
  "getlockinterest P GetInterestFn chainHeight request =
     (if fHelp request \<or> nParams request \<noteq> 2 then Inl HelpRequested
      else
        let lt = int32_mul (lockdays request) (BlocksPerDay P) in
        if lt \<le> 0 then Inl RPC_INVALID_PARAMETER
        else if sint (principal request) \<le> 0 then Inl RPC_INVALID_PARAMETER
        else
          let i = GetInterestFn (principal request) lt (chainHeight + 1);
              adjustedLockTime = AdjustToLockInterestThreshold P lt
          in Inr \<lparr> locktime = adjustedLockTime, interest = i \<rparr>)"

section \<open>Transactions (primitives/transaction.h, primitives/transaction.cpp)\<close>

type_synonym CScript = "8 word list"

record COutPoint =
  prevout_hash :: uint256
  prevout_n :: uint32
  prevout_nValue :: CAmount

record CTxIn =
  prevout :: COutPoint
  scriptSig :: CScript

record CTxOut =
  nValue :: CAmount
  nPrincipal :: CAmount
  scriptPubKey :: CScript
  strContent :: string
  nLockTime :: uint32

record CTransaction =
  nTxVersion :: int
  nFlags :: "32 word"
  vin :: "CTxIn list"
  vout :: "CTxOut list"
  hash :: uint256

definition TX_FLAGS_COINBASE :: "32 word" where
  "TX_FLAGS_COINBASE = 1"

definition IsCoinBase :: "CTransaction \<Rightarrow> bool" where
  "IsCoinBase tx \<longleftrightarrow> nFlags tx AND TX_FLAGS_COINBASE \<noteq> 0"

text \<open>
  \<^verbatim>\<open>CTransaction::GetValueOut\<close>: the loop over \<^verbatim>\<open>vout\<close> with the running sum
  \<^verbatim>\<open>nValueOut\<close>; the \<^verbatim>\<open>throw\<close> is the result \<open>Inl ValueOutOfRange\<close>.
\<close>

fun GetValueOut_loop :: "CAmount \<Rightarrow> CTxOut list \<Rightarrow> CAmount \<Rightarrow> error + CAmount" where
  "GetValueOut_loop M [] nValueOut = Inr nValueOut"
| "GetValueOut_loop M (out # rest) nValueOut =
     (let nValueOut' = nValueOut + nValue out in
      if \<not> MoneyRange M (nValue out) \<or> \<not> MoneyRange M nValueOut'
      then Inl ValueOutOfRange
      else GetValueOut_loop M rest nValueOut')"

definition GetValueOut :: "CAmount \<Rightarrow> CTransaction \<Rightarrow> error + CAmount" where
  "GetValueOut M tx = GetValueOut_loop M (vout tx) 0"

text \<open>
  \<^verbatim>\<open>CTransaction::GetInterest\<close>: a coinbase returns 0 before the loop; an output with
  \<^verbatim>\<open>nPrincipal == 0\<close> is skipped by \<^verbatim>\<open>continue\<close>, before the range checks.
\<close>

fun GetInterest_loop :: "CAmount \<Rightarrow> CTxOut list \<Rightarrow> CAmount \<Rightarrow> error + CAmount" where
  "GetInterest_loop M [] nInterest = Inr nInterest"
| "GetInterest_loop M (out # rest) nInterest =
     (if nPrincipal out = 0 then GetInterest_loop M rest nInterest
      else
        let nInterest' =
              (if sint (nValue out) > sint (nPrincipal out)
               then nInterest + (nValue out - nPrincipal out) else nInterest)
        in if \<not> MoneyRange M (nValue out) \<or> \<not> MoneyRange M (nPrincipal out)
              \<or> \<not> MoneyRange M nInterest'
           then Inl ValueOutOfRange
           else GetInterest_loop M rest nInterest')"

definition GetInterest :: "CAmount \<Rightarrow> CTransaction \<Rightarrow> error + CAmount" where
  "GetInterest M tx = (if IsCoinBase tx then Inr 0 else GetInterest_loop M (vout tx) 0)"

text \<open>
  The interest of one output as the spec's glossary words it: \<open>max(0, value - principal)\<close>
  for an output whose principal is positive, and nothing for any other output.  It is
  the yardstick the loop above is compared with, not a translation of code.
\<close>

definition OutputInterest :: "CTxOut \<Rightarrow> int" where
  "OutputInterest out =
     (if 0 < sint (nPrincipal out) then max 0 (sint (nValue out) - sint (nPrincipal out)) else 0)"

text \<open>
  What \<^verbatim>\<open>GetValueOut\<close> and \<^verbatim>\<open>GetInterest\<close> examine at output \<open>k\<close>, with the sums
  taken over the integers; \<open>a\<close> is the value of the running sum before the loop.
  Both predicates only shorten the statements about the two loops.
\<close>

definition ValueOutViolation :: "CAmount \<Rightarrow> CTxOut list \<Rightarrow> int \<Rightarrow> nat \<Rightarrow> bool" where
  "ValueOutViolation M outs a k \<longleftrightarrow>
     \<not> (MoneyRange M (nValue (outs ! k))
        \<and> 0 \<le> a + (\<Sum>out\<leftarrow>take (Suc k) outs. sint (nValue out))
        \<and> a + (\<Sum>out\<leftarrow>take (Suc k) outs. sint (nValue out)) \<le> sint M)"

definition InterestViolation :: "CAmount \<Rightarrow> CTxOut list \<Rightarrow> int \<Rightarrow> nat \<Rightarrow> bool" where
  "InterestViolation M outs a k \<longleftrightarrow>
     nPrincipal (outs ! k) \<noteq> 0 \<and>
     \<not> (MoneyRange M (nValue (outs ! k)) \<and> MoneyRange M (nPrincipal (outs ! k))
        \<and> 0 \<le> a + (\<Sum>out\<leftarrow>take (Suc k) outs. OutputInterest out)
        \<and> a + (\<Sum>out\<leftarrow>take (Suc k) outs. OutputInterest out) \<le> sint M)"

section \<open>Blocks (primitives/block.h)\<close>

type_synonym ethash_h256 = nat

text \<open>
  \<^verbatim>\<open>CBlock\<close> with the header fields of \<^verbatim>\<open>CBlockHeader\<close> it inherits.  A
  \<^verbatim>\<open>CTransactionRef\<close> points to an immutable transaction and is the transaction itself
  here.
\<close>

record CBlock =
  nVersion :: int
  hashPrevBlock :: uint256
  hashMerkleRoot :: uint256
  nBlockHeight :: uint32
  nTime :: uint32
  nChainInterest :: uint64
  nBits :: uint32
  hashMix :: ethash_h256
  nNonce :: uint64
  vtx :: "CTransaction list"

text \<open>
  \<^verbatim>\<open>CBlockHeaderBase(header)\<close> copies the seven fields that are hashed for Ethash.
\<close>

type_synonym CBlockHeaderBase = "int \<times> uint256 \<times> uint256 \<times> uint32 \<times> uint32 \<times> uint64 \<times> uint32"

definition CBlockHeaderBase :: "CBlock \<Rightarrow> CBlockHeaderBase" where
  "CBlockHeaderBase header =
     (nVersion header, hashPrevBlock header, hashMerkleRoot header, nBlockHeight header,
      nTime header, nChainInterest header, nBits header)"

section \<open>The work registry and result submission (miner.cpp, MineWorker)\<close>

text \<open>
  A \<^verbatim>\<open>Work\<close> entry.  The fields \<^verbatim>\<open>block\<close> and \<^verbatim>\<open>done\<close> of the source are
  \<open>work_block\<close> and \<open>work_done\<close>.
\<close>

record Work =
  work_block :: CBlock
  blockEthash :: ethash_h256
  boundary :: ethash_h256
  work_done :: bool
  miningThreads :: int
  deprecated :: bool

text \<open>
  Modelled from the spec: \<^verbatim>\<open>EthashEquals\<close> is declared outside the sources at hand; it
  compares two 256-bit hashes.
\<close>

definition EthashEquals :: "ethash_h256 \<Rightarrow> ethash_h256 \<Rightarrow> bool" where
  "EthashEquals a b \<longleftrightarrow> a = b"

text \<open>
  The validation and wallet collaborators that the registry operations call.  They are
  outside the sources at hand and are parameters: \<open>'c\<close> is the chain state behind
  \<^verbatim>\<open>cs_main\<close>, \<open>TipBlockHash\<close> is \<^verbatim>\<open>chainActive.Tip()->GetBlockHash()\<close>,
  \<open>BlockGetHash\<close> is \<^verbatim>\<open>CBlock::GetHash\<close> and \<open>SerializeEthash\<close> is
  \<^verbatim>\<open>CBlockHeaderBase::GetEthash\<close>.
\<close>

record 'c Validation =
  TipBlockHash :: "'c \<Rightarrow> uint256"
  ProcessNewBlock :: "'c \<Rightarrow> CBlock \<Rightarrow> bool \<times> 'c"
  BlockGetHash :: "CBlock \<Rightarrow> uint256"
  SerializeEthash :: "CBlockHeaderBase \<Rightarrow> ethash_h256"
  MAX_MONEY :: CAmount

text \<open>
  The state the registry operations read and write: \<^verbatim>\<open>listWork\<close>, the chain state,
  the wallet's \<^verbatim>\<open>mapRequestCount\<close>, and a log of the blocks handed to
  \<^verbatim>\<open>ProcessNewBlock\<close> (the log is not in the source; it records the calls so that
  "was not submitted" can be stated).
\<close>

record 'c MineWorker =
  listWork :: "Work list"
  chain :: 'c
  mapRequestCount :: "uint256 \<rightharpoonup> int"
  submitted :: "CBlock list"

text \<open>The position of the first entry of the list that satisfies \<open>P\<close>.\<close>

fun find_work :: "(Work \<Rightarrow> bool) \<Rightarrow> Work list \<Rightarrow> nat option" where
  "find_work P [] = None"
| "find_work P (it # rest) = (if P it then Some 0 else map_option Suc (find_work P rest))"

text \<open>
  \<^verbatim>\<open>AddWork\<close>: an entry with the same \<^verbatim>\<open>blockEthash\<close> and the same \<^verbatim>\<open>boundary\<close> is
  returned as it is; otherwise a fresh entry is pushed to the back.  The result is the
  list and the position of the returned entry.
\<close>

definition AddWork ::
  "(CBlockHeaderBase \<Rightarrow> ethash_h256) \<Rightarrow> Work list \<Rightarrow> CBlock \<Rightarrow> ethash_h256 \<Rightarrow> Work list \<times> nat" where
  "AddWork GetEthash works blk bnd =
     (let h = GetEthash (CBlockHeaderBase blk) in
      case find_work (\<lambda>it. EthashEquals (blockEthash it) h \<and> EthashEquals bnd (boundary it)) works of
        Some i \<Rightarrow> (works, i)
      | None \<Rightarrow>
          (works @ [\<lparr> work_block = blk, blockEthash = h, boundary = bnd, work_done = False,
                      miningThreads = 0, deprecated = False \<rparr>],
           length works))"

text \<open>\<^verbatim>\<open>GetWork()\<close>: the first entry that is not done.\<close>

definition GetWork :: "Work list \<Rightarrow> Work option" where
  "GetWork works = find (\<lambda>it. \<not> work_done it) works"

text \<open>\<^verbatim>\<open>GetWork(blockEthash)\<close>: the first entry with that hash.\<close>

definition GetWorkByHash :: "Work list \<Rightarrow> ethash_h256 \<Rightarrow> Work option" where
  "GetWorkByHash works h = find (\<lambda>it. EthashEquals (blockEthash it) h) works"

definition UpdateWork :: "Work list \<Rightarrow> ethash_h256 \<Rightarrow> uint64 \<Rightarrow> ethash_h256 \<Rightarrow> Work list" where
  "UpdateWork works h nonce mix =
     map (\<lambda>it. if EthashEquals (blockEthash it) h
               then it\<lparr> work_block := (work_block it)\<lparr> nNonce := nonce, hashMix := mix \<rparr> \<rparr>
               else it) works"

definition RemoveWork :: "Work list \<Rightarrow> ethash_h256 \<Rightarrow> Work list" where
  "RemoveWork works h = filter (\<lambda>it. \<not> EthashEquals (blockEthash it) h) works"

definition RemoveWorkByHeight :: "Work list \<Rightarrow> uint32 \<Rightarrow> Work list" where
  "RemoveWorkByHeight works height = filter (\<lambda>it. nBlockHeight (work_block it) \<noteq> height) works"

definition SetWorkDone :: "Work list \<Rightarrow> ethash_h256 \<Rightarrow> Work list" where
  "SetWorkDone works h =
     map (\<lambda>it. if EthashEquals (blockEthash it) h then it\<lparr> work_done := True \<rparr> else it) works"

definition CleanWork :: "Work list \<Rightarrow> Work list" where
  "CleanWork works = []"

text \<open>
  \<^verbatim>\<open>ProcessBlockFound\<close>.  The two log lines at entry evaluate
  \<^verbatim>\<open>pblock->vtx[0]->GetValueOut()\<close>: reading \<^verbatim>\<open>vtx[0]\<close> of a block without
  transactions is undefined in C++ and is the error \<open>IndexOutOfRange\<close> here, and a
  \<^verbatim>\<open>GetValueOut\<close> that throws leaves the function before the tip is looked at.
  \<^verbatim>\<open>error(...)\<close> logs and returns \<^verbatim>\<open>false\<close>.
\<close>

definition ProcessBlockFound ::
  "'c Validation \<Rightarrow> 'c MineWorker \<Rightarrow> CBlock \<Rightarrow> (error + bool) \<times> 'c MineWorker" where
  "ProcessBlockFound V s pblock =
     (case vtx pblock of
        [] \<Rightarrow> (Inl IndexOutOfRange, s)
      | coinbase # _ \<Rightarrow>
          (case GetValueOut (MAX_MONEY V) coinbase of
             Inl e \<Rightarrow> (Inl e, s)
           | Inr generated \<Rightarrow>
               if hashPrevBlock pblock \<noteq> TipBlockHash V (chain s) then (Inr False, s)
               else
                 let s1 = s\<lparr> mapRequestCount := (mapRequestCount s)(BlockGetHash V pblock \<mapsto> 0) \<rparr>;
                     r = ProcessNewBlock V (chain s1) pblock;
                     s2 = s1\<lparr> chain := snd r, submitted := submitted s1 @ [pblock] \<rparr>
                 in if \<not> fst r then (Inr False, s2) else (Inr True, s2)))"

text \<open>
  \<^verbatim>\<open>SubmitWork\<close>: mark done, store nonce and mix hash, look the entry up, hand its
  block to \<^verbatim>\<open>ProcessBlockFound\<close>, and remove the entry when the block is not
  accepted.
\<close>

definition SubmitWork ::
  "'c Validation \<Rightarrow> 'c MineWorker \<Rightarrow> ethash_h256 \<Rightarrow> uint64 \<Rightarrow> ethash_h256
     \<Rightarrow> (error + bool) \<times> 'c MineWorker" where
  "SubmitWork V s h nonce mix =
     (let s1 = s\<lparr> listWork := UpdateWork (SetWorkDone (listWork s) h) h nonce mix \<rparr> in
      case GetWorkByHash (listWork s1) h of
        None \<Rightarrow> (Inr False, s1)
      | Some pwork \<Rightarrow>
          (case ProcessBlockFound V s1 (work_block pwork) of
             (Inr True, s2) \<Rightarrow> (Inr True, s2)
           | (Inr False, s2) \<Rightarrow>
               (Inr False, s2\<lparr> listWork := RemoveWork (listWork s2) (blockEthash pwork) \<rparr>)
           | (Inl e, s2) \<Rightarrow> (Inl e, s2)))"

subsection \<open>The calls that reach the registry\<close>

text \<open>
  The tail of \<^verbatim>\<open>GenNewWork\<close>: \<open>pblock\<close> is the block that \<^verbatim>\<open>CreateNewBlock\<close> and
  \<^verbatim>\<open>IncrementExtraNonce\<close> have built; the boundary is
  \<^verbatim>\<open>arith_uint256().SetCompact(pblock->nBits).ToEthashH256()\<close>, a function of \<^verbatim>\<open>nBits\<close>
  (\<^verbatim>\<open>arith_uint256\<close> is outside the sources at hand, the function is the parameter
  \<open>ToBoundary\<close>).
\<close>

definition GenNewWork ::
  "(CBlockHeaderBase \<Rightarrow> ethash_h256) \<Rightarrow> (uint32 \<Rightarrow> ethash_h256) \<Rightarrow> CBlock \<Rightarrow> Work" where
  "GenNewWork GetEthash ToBoundary pblock =
     \<lparr> work_block = pblock, blockEthash = GetEthash (CBlockHeaderBase pblock),
       boundary = ToBoundary (nBits pblock), work_done = False, miningThreads = 0,
       deprecated = False \<rparr>"

text \<open>
  Everything that writes \<^verbatim>\<open>listWork\<close> or one of its entries.  \<^verbatim>\<open>AddWork\<close> is called
  at four places, each time as \<^verbatim>\<open>AddWork(work.block, work.boundary)\<close> on the result
  of \<^verbatim>\<open>GenNewWork\<close>.  The miner threads and the dispatcher write through the pointers
  that \<^verbatim>\<open>GetWork\<close> and \<^verbatim>\<open>AddWork\<close> return: \<^verbatim>\<open>deprecated = true\<close>, the thread
  counter, and the nonce, the mix hash and \<^verbatim>\<open>done = true\<close> of a solved entry; the
  entry is named by its position here, and a position outside the list is an entry that
  has left the registry.
\<close>

datatype RegistryCall =
    CallAddWork CBlock
  | CallRemoveWork ethash_h256
  | CallRemoveWorkByHeight uint32
  | CallSetWorkDone ethash_h256
  | CallUpdateWork ethash_h256 uint64 ethash_h256
  | CallCleanWork
  | WriteDeprecated nat
  | WriteMiningThreads nat int
  | WriteSolved nat uint64 ethash_h256

definition write_entry :: "Work list \<Rightarrow> nat \<Rightarrow> (Work \<Rightarrow> Work) \<Rightarrow> Work list" where
  "write_entry works i f = (if i < length works then works[i := f (works ! i)] else works)"

fun registry_call ::
  "(CBlockHeaderBase \<Rightarrow> ethash_h256) \<Rightarrow> (uint32 \<Rightarrow> ethash_h256) \<Rightarrow> Work list \<Rightarrow> RegistryCall
     \<Rightarrow> Work list" where
  "registry_call GetEthash ToBoundary works (CallAddWork pblock) =
     (let work = GenNewWork GetEthash ToBoundary pblock
      in fst (AddWork GetEthash works (work_block work) (boundary work)))"
| "registry_call GetEthash ToBoundary works (CallRemoveWork h) = RemoveWork works h"
| "registry_call GetEthash ToBoundary works (CallRemoveWorkByHeight height) =
     RemoveWorkByHeight works height"
| "registry_call GetEthash ToBoundary works (CallSetWorkDone h) = SetWorkDone works h"
| "registry_call GetEthash ToBoundary works (CallUpdateWork h nonce mix) =
     UpdateWork works h nonce mix"
| "registry_call GetEthash ToBoundary works CallCleanWork = CleanWork works"
| "registry_call GetEthash ToBoundary works (WriteDeprecated i) =
     write_entry works i (\<lambda>w. w\<lparr> deprecated := True \<rparr>)"
| "registry_call GetEthash ToBoundary works (WriteMiningThreads i d) =
     write_entry works i (\<lambda>w. w\<lparr> miningThreads := miningThreads w + d \<rparr>)"
| "registry_call GetEthash ToBoundary works (WriteSolved i nonce mix) =
     write_entry works i
       (\<lambda>w. w\<lparr> work_block := (work_block w)\<lparr> nNonce := nonce, hashMix := mix \<rparr>,
                work_done := True \<rparr>)"

text \<open>The registry after a sequence of calls; the constructor leaves it empty.\<close>

definition registry_after ::
  "(CBlockHeaderBase \<Rightarrow> ethash_h256) \<Rightarrow> (uint32 \<Rightarrow> ethash_h256) \<Rightarrow> RegistryCall list
     \<Rightarrow> Work list" where
  "registry_after GetEthash ToBoundary calls = foldl (registry_call GetEthash ToBoundary) [] calls"

text \<open>
  What every entry keeps from its creation: its hash is the Ethash of its block's base
  header and its boundary is the one of its block's \<^verbatim>\<open>nBits\<close>.
\<close>

definition entries_keyed ::
  "(CBlockHeaderBase \<Rightarrow> ethash_h256) \<Rightarrow> (uint32 \<Rightarrow> ethash_h256) \<Rightarrow> Work list \<Rightarrow> bool" where
  "entries_keyed GetEthash ToBoundary works \<longleftrightarrow>
     (\<forall>w\<in>set works. blockEthash w = GetEthash (CBlockHeaderBase (work_block w))
                     \<and> boundary w = ToBoundary (nBits (work_block w)))"

section \<open>The memory pool as the block assembler reads it\<close>

text \<open>
  \<^verbatim>\<open>txmempool.h\<close> is outside the sources at hand.  A \<^verbatim>\<open>CTxMemPool::txiter\<close> is an
  iterator into \<^verbatim>\<open>mapTx\<close>; it is identified with the id of the transaction it points
  to, and \<^verbatim>\<open>CompareIteratorByHash\<close> is the order of these ids.
\<close>

type_synonym txiter = nat

text \<open>
  Modelled from the spec: a mempool entry is the transaction plus
  \<open>{size, sigOpCount, fee, interest, modifiedFee, ancestorSize, ancestorModFees,
  ancestorSigOps, parents, children}\<close>, and the ancestor count that
  \<^verbatim>\<open>SortForBlock\<close> sorts by.  Each field is named after the accessor the assembler
  calls: \<open>eFee\<close> is \<^verbatim>\<open>GetFee()\<close>, \<open>eTx\<close> is \<^verbatim>\<open>GetTx()\<close> and \<^verbatim>\<open>GetSharedTx()\<close>,
  \<open>eInterest\<close> is \<^verbatim>\<open>GetInterest()\<close>, \<open>ePriority h\<close> is \<^verbatim>\<open>GetPriority(h)\<close> after
  \<^verbatim>\<open>ApplyDeltas\<close> (a \<^verbatim>\<open>double\<close>, idealised to a rational), \<open>eParents\<close> and
  \<open>eChildren\<close> are \<^verbatim>\<open>GetMemPoolParents\<close> and \<^verbatim>\<open>GetMemPoolChildren\<close> in the
  iteration order of the sets.
\<close>

record CTxMemPoolEntry =
  eTx :: CTransaction
  eFee :: CAmount
  eTxSize :: uint64
  eModifiedFee :: CAmount
  eSigOpCount :: uint64
  eInterest :: CAmount
  ePriority :: "int \<Rightarrow> rat"
  eCountWithAncestors :: uint64
  eSizeWithAncestors :: uint64
  eModFeesWithAncestors :: CAmount
  eSigOpCountWithAncestors :: uint64
  eParents :: "txiter list"
  eChildren :: "txiter list"

text \<open>
  The pool: the iterators of \<^verbatim>\<open>mapTx\<close> in the order of its primary index, what each
  iterator points to, and the iterators in the order of the \<^verbatim>\<open>ancestor_score\<close> index.
\<close>

record CTxMemPool =
  mapTx :: "txiter list"
  deref :: "txiter \<Rightarrow> CTxMemPoolEntry"
  mapTx_ancestor_score :: "txiter list"

definition GetMemPoolParents :: "CTxMemPool \<Rightarrow> txiter \<Rightarrow> txiter list" where
  "GetMemPoolParents mp it = eParents (deref mp it)"

definition GetMemPoolChildren :: "CTxMemPool \<Rightarrow> txiter \<Rightarrow> txiter list" where
  "GetMemPoolChildren mp it = eChildren (deref mp it)"

text \<open>The parent links and the child links of the pool's entries, as finite relations.\<close>

definition parentRel :: "CTxMemPool \<Rightarrow> (txiter \<times> txiter) set" where
  "parentRel mp = set (concat (map (\<lambda>c. map (\<lambda>p. (c, p)) (GetMemPoolParents mp c)) (mapTx mp)))"

definition childRel :: "CTxMemPool \<Rightarrow> (txiter \<times> txiter) set" where
  "childRel mp = set (concat (map (\<lambda>p. map (\<lambda>c. (p, c)) (GetMemPoolChildren mp p)) (mapTx mp)))"

text \<open>
  Modelled from the spec: \<^verbatim>\<open>CalculateMemPoolAncestors\<close> (called without limits)
  computes the in-mempool ancestor set of an entry, and \<^verbatim>\<open>CalculateDescendants\<close> the
  entry together with its in-mempool descendants.
\<close>

definition CalculateMemPoolAncestors :: "CTxMemPool \<Rightarrow> txiter \<Rightarrow> txiter set" where
  "CalculateMemPoolAncestors mp it = snd ` Set.filter (\<lambda>e. fst e = it) ((parentRel mp)\<^sup>+)"

definition CalculateDescendants :: "CTxMemPool \<Rightarrow> txiter \<Rightarrow> txiter set" where
  "CalculateDescendants mp it = insert it (snd ` Set.filter (\<lambda>e. fst e = it) ((childRel mp)\<^sup>+))"

section \<open>The block assembler (miner.cpp, BlockAssembler)\<close>

record CBlockTemplate =
  block :: CBlock
  vTxFees :: "CAmount list"
  vTxSigOpsCount :: "uint64 list"

text \<open>The tip \<^verbatim>\<open>pindexPrev\<close> as \<^verbatim>\<open>CreateNewBlock\<close> reads it.\<close>

record CBlockIndex =
  tip_nHeight :: int
  tip_nChainInterest :: uint64
  tip_hash :: uint256
  tip_MedianTimePast :: int

text \<open>
  \<^verbatim>\<open>CTxMemPoolModifiedEntry\<close>: an entry of \<^verbatim>\<open>mapModifiedTx\<close> (\<open>mod_iter\<close> is its field
  \<^verbatim>\<open>iter\<close>).
\<close>

record CTxMemPoolModifiedEntry =
  mod_iter :: txiter
  nSizeWithAncestors :: uint64
  nModFeesWithAncestors :: CAmount
  nSigOpCountWithAncestors :: uint64

text \<open>
  What the assembler calls and reads outside the sources at hand, as parameters:
  serialisation sizes, the sig-op cap, the contextual transaction check, the
  free-transaction threshold, the block subsidy of \<^verbatim>\<open>validation.cpp\<close>, the final
  validity check, the two comparators of \<^verbatim>\<open>miner.h\<close> and \<^verbatim>\<open>txmempool.h\<close>, the fee
  of the minimum fee rate, the configuration values and the clock.
\<close>

record Env =
  GetSerializeSize :: "CTransaction \<Rightarrow> uint64"
  GetMaxBlockSigOpsCount :: "uint64 \<Rightarrow> uint64"
  ContextualCheckTransaction :: "CTransaction \<Rightarrow> int \<Rightarrow> int \<Rightarrow> bool"
  AllowFree :: "rat \<Rightarrow> bool"
  GetBlockSubsidy :: "int \<Rightarrow> CAmount"
  TestBlockValidity :: "CBlock \<Rightarrow> bool"
  pricomparer :: "rat \<times> txiter \<Rightarrow> rat \<times> txiter \<Rightarrow> bool"
  CompareModifiedEntry :: "CTxMemPoolModifiedEntry \<Rightarrow> CTxMemPoolModifiedEntry \<Rightarrow> bool"
  blockMinFeeRate_GetFee :: "uint64 \<Rightarrow> CAmount"
  BlockPriorityPercentage :: uint64
  blockmaxsize :: "uint64 option"
  DEFAULT_MAX_GENERATED_BLOCK_SIZE :: uint64
  MaxBlockSize :: uint64
  ComputeBlockVersion :: int
  MineBlocksOnDemand :: bool
  blockversion :: "int option"
  GetAdjustedTime :: int
  GetNextWorkRequired :: "CBlock \<Rightarrow> uint32"
  fPowAllowMinDifficultyBlocks :: bool
  COINBASE_MATURITY :: uint32
  GetSigOpCountWithoutP2SH :: "CTransaction \<Rightarrow> uint64"
  SerializeHash :: "CTransaction \<Rightarrow> uint256"

text \<open>The members of \<^verbatim>\<open>BlockAssembler\<close> that a call of \<^verbatim>\<open>CreateNewBlock\<close> uses.\<close>

record BlockAssembler =
  pblocktemplate :: CBlockTemplate
  inBlock :: "txiter set"
  nBlockSize :: uint64
  nBlockSigOps :: uint64
  nBlockTx :: uint64
  nFees :: CAmount
  nInterest :: CAmount
  lastFewTxs :: int
  blockFinished :: bool
  nHeight :: int
  nLockTimeCutoff :: int
  nMaxGeneratedBlockSize :: uint64

text \<open>
  \<^verbatim>\<open>ComputeMaxGeneratedBlockSize\<close>: \<^verbatim>\<open>-blockmaxsize\<close> or the default, limited to
  between 1000 and \<^verbatim>\<open>MaxBlockSize - 1000\<close> (unsigned 64-bit).
\<close>

definition ComputeMaxGeneratedBlockSize :: "Env \<Rightarrow> uint64" where
  "ComputeMaxGeneratedBlockSize env =
     (let n = (case blockmaxsize env of None \<Rightarrow> DEFAULT_MAX_GENERATED_BLOCK_SIZE env | Some a \<Rightarrow> a)
      in max 1000 (min (MaxBlockSize env - 1000) n))"

text \<open>\<^verbatim>\<open>resetBlock\<close>: 1000 bytes and 100 sig-ops are reserved for the coinbase.\<close>

definition resetBlock :: "BlockAssembler \<Rightarrow> BlockAssembler" where
  "resetBlock ba =
     ba\<lparr> inBlock := {}, nBlockSize := 1000, nBlockSigOps := 100, nBlockTx := 0, nFees := 0,
         nInterest := 0, lastFewTxs := 0, blockFinished := False \<rparr>"

definition isStillDependent :: "BlockAssembler \<Rightarrow> CTxMemPool \<Rightarrow> txiter \<Rightarrow> bool" where
  "isStillDependent ba mp it \<longleftrightarrow> (\<exists>parent\<in>set (GetMemPoolParents mp it). parent \<notin> inBlock ba)"

definition onlyUnconfirmed :: "BlockAssembler \<Rightarrow> txiter set \<Rightarrow> txiter set" where
  "onlyUnconfirmed ba testSet = Set.filter (\<lambda>it. it \<notin> inBlock ba) testSet"

definition TestPackage :: "Env \<Rightarrow> BlockAssembler \<Rightarrow> uint64 \<Rightarrow> uint64 \<Rightarrow> bool" where
  "TestPackage env ba packageSize packageSigOps =
     (let blockSizeWithPackage = nBlockSize ba + packageSize in
      if blockSizeWithPackage \<ge> nMaxGeneratedBlockSize ba then False
      else if nBlockSigOps ba + packageSigOps \<ge> GetMaxBlockSigOpsCount env blockSizeWithPackage
      then False
      else True)"

text \<open>
  \<^verbatim>\<open>TestPackageTransactions\<close>: the loop over the package in the iteration order of
  the set, with the potential block size as accumulator.
\<close>

fun TestPackageTransactions_loop ::
  "Env \<Rightarrow> BlockAssembler \<Rightarrow> CTxMemPool \<Rightarrow> txiter list \<Rightarrow> uint64 \<Rightarrow> bool" where
  "TestPackageTransactions_loop env ba mp [] nPotentialBlockSize = True"
| "TestPackageTransactions_loop env ba mp (it # rest) nPotentialBlockSize =
     (if \<not> ContextualCheckTransaction env (eTx (deref mp it)) (nHeight ba) (nLockTimeCutoff ba)
      then False
      else
        let nTxSize = GetSerializeSize env (eTx (deref mp it)) in
        if nPotentialBlockSize + nTxSize \<ge> nMaxGeneratedBlockSize ba then False
        else TestPackageTransactions_loop env ba mp rest (nPotentialBlockSize + nTxSize))"

definition TestPackageTransactions ::
  "Env \<Rightarrow> BlockAssembler \<Rightarrow> CTxMemPool \<Rightarrow> txiter set \<Rightarrow> bool" where
  "TestPackageTransactions env ba mp package =
     TestPackageTransactions_loop env ba mp (sorted_list_of_set package) (nBlockSize ba)"

text \<open>
  \<^verbatim>\<open>TestForBlock\<close> returns its verdict and the assembler, whose \<^verbatim>\<open>blockFinished\<close>
  and \<^verbatim>\<open>lastFewTxs\<close> it may change.
\<close>

definition TestForBlock ::
  "Env \<Rightarrow> BlockAssembler \<Rightarrow> CTxMemPool \<Rightarrow> txiter \<Rightarrow> bool \<times> BlockAssembler" where
  "TestForBlock env ba mp it =
     (let blockSizeWithTx = nBlockSize ba + GetSerializeSize env (eTx (deref mp it)) in
      if blockSizeWithTx \<ge> nMaxGeneratedBlockSize ba then
        (if nBlockSize ba > nMaxGeneratedBlockSize ba - 100 \<or> lastFewTxs ba > 50
         then (False, ba\<lparr> blockFinished := True \<rparr>)
         else if nBlockSize ba > nMaxGeneratedBlockSize ba - 1000
         then (False, ba\<lparr> lastFewTxs := lastFewTxs ba + 1 \<rparr>)
         else (False, ba))
      else
        let maxBlockSigOps = GetMaxBlockSigOpsCount env blockSizeWithTx in
        if nBlockSigOps ba + eSigOpCount (deref mp it) \<ge> maxBlockSigOps then
          (if nBlockSigOps ba > maxBlockSigOps - 2
           then (False, ba\<lparr> blockFinished := True \<rparr>)
           else (False, ba))
        else if \<not> ContextualCheckTransaction env (eTx (deref mp it)) (nHeight ba)
                    (nLockTimeCutoff ba)
        then (False, ba)
        else (True, ba))"

text \<open>
  \<^verbatim>\<open>AddToBlock\<close>: the transaction, its fee and its sig-op count are appended to the
  template, and the counters, the fee total, the interest total and \<^verbatim>\<open>inBlock\<close> are
  updated.  (The optional priority log line has no effect on the state.)
\<close>

definition AddToBlock :: "BlockAssembler \<Rightarrow> CTxMemPool \<Rightarrow> txiter \<Rightarrow> BlockAssembler" where
  "AddToBlock ba mp it =
     (let e = deref mp it; t = pblocktemplate ba; b = block t in
      ba\<lparr> pblocktemplate :=
            t\<lparr> block := b\<lparr> vtx := vtx b @ [eTx e] \<rparr>,
               vTxFees := vTxFees t @ [eFee e],
               vTxSigOpsCount := vTxSigOpsCount t @ [eSigOpCount e] \<rparr>,
          nBlockSize := nBlockSize ba + eTxSize e,
          nBlockTx := nBlockTx ba + 1,
          nBlockSigOps := nBlockSigOps ba + eSigOpCount e,
          nFees := nFees ba + eFee e,
          nInterest := nInterest ba + eInterest e,
          inBlock := insert it (inBlock ba) \<rparr>)"

text \<open>
  \<^verbatim>\<open>mapModifiedTx\<close> is a list of modified entries with at most one entry per
  iterator.  \<^verbatim>\<open>CTxMemPoolModifiedEntry(it)\<close> copies the with-ancestors totals of the pool
  entry.
\<close>

definition ModifiedEntry :: "CTxMemPool \<Rightarrow> txiter \<Rightarrow> CTxMemPoolModifiedEntry" where
  "ModifiedEntry mp it =
     \<lparr> mod_iter = it,
       nSizeWithAncestors = eSizeWithAncestors (deref mp it),
       nModFeesWithAncestors = eModFeesWithAncestors (deref mp it),
       nSigOpCountWithAncestors = eSigOpCountWithAncestors (deref mp it) \<rparr>"

text \<open>
  Modelled from the spec: \<^verbatim>\<open>update_for_parent_inclusion\<close> (\<^verbatim>\<open>miner.h\<close>) subtracts the
  totals of the included ancestor from the recorded totals, as the insertion branch of
  \<^verbatim>\<open>UpdatePackagesForAdded\<close> does.
\<close>

definition update_for_parent_inclusion ::
  "CTxMemPool \<Rightarrow> txiter \<Rightarrow> CTxMemPoolModifiedEntry \<Rightarrow> CTxMemPoolModifiedEntry" where
  "update_for_parent_inclusion mp it e =
     e\<lparr> nSizeWithAncestors := nSizeWithAncestors e - eTxSize (deref mp it),
        nModFeesWithAncestors := nModFeesWithAncestors e - eModifiedFee (deref mp it),
        nSigOpCountWithAncestors := nSigOpCountWithAncestors e - eSigOpCount (deref mp it) \<rparr>"

text \<open>
  The body of the inner loop of \<^verbatim>\<open>UpdatePackagesForAdded\<close> for one descendant
  \<open>desc\<close> of the added entry \<open>it\<close>; the state is the counter and \<^verbatim>\<open>mapModifiedTx\<close>.
\<close>

definition UpdateDescendant ::
  "CTxMemPool \<Rightarrow> txiter set \<Rightarrow> txiter \<Rightarrow> int \<times> CTxMemPoolModifiedEntry list \<Rightarrow> txiter
     \<Rightarrow> int \<times> CTxMemPoolModifiedEntry list" where
  "UpdateDescendant mp alreadyAdded it st desc =
     (if desc \<in> alreadyAdded then st
      else if desc \<in> mod_iter ` set (snd st)
      then (fst st + 1,
            map (\<lambda>e. if mod_iter e = desc then update_for_parent_inclusion mp it e else e) (snd st))
      else (fst st + 1, snd st @ [update_for_parent_inclusion mp it (ModifiedEntry mp desc)]))"

definition UpdatePackagesForAdded ::
  "CTxMemPool \<Rightarrow> txiter set \<Rightarrow> CTxMemPoolModifiedEntry list
     \<Rightarrow> int \<times> CTxMemPoolModifiedEntry list" where
  "UpdatePackagesForAdded mp alreadyAdded mapModified =
     foldl (\<lambda>st it. foldl (UpdateDescendant mp alreadyAdded it) st
                       (sorted_list_of_set (CalculateDescendants mp it)))
       (0, mapModified) (sorted_list_of_set alreadyAdded)"

definition SkipMapTxEntry ::
  "BlockAssembler \<Rightarrow> txiter \<Rightarrow> CTxMemPoolModifiedEntry list \<Rightarrow> txiter set \<Rightarrow> bool" where
  "SkipMapTxEntry ba it mapModified failed \<longleftrightarrow>
     it \<in> mod_iter ` set mapModified \<or> it \<in> inBlock ba \<or> it \<in> failed"

text \<open>
  Modelled from the spec: \<^verbatim>\<open>SortForBlock\<close> sorts the package by ancestor count
  ascending.  \<^verbatim>\<open>CompareTxIterByAncestorCount\<close> is outside the sources at hand; entries
  with equal counts keep the order of their ids, in which the package is enumerated.
\<close>

definition SortForBlock :: "CTxMemPool \<Rightarrow> txiter set \<Rightarrow> txiter list" where
  "SortForBlock mp package =
     sort_key (\<lambda>it. eCountWithAncestors (deref mp it)) (sorted_list_of_set package)"

text \<open>What one pass through the body of a loop does with the loop.\<close>

datatype 's step = Continue 's | Break 's | Abort error

subsection \<open>Phase 1: \<^verbatim>\<open>addPriorityTxs\<close>\<close>

text \<open>
  The state of the loop: the assembler, the heap \<^verbatim>\<open>vecPriority\<close> and the map
  \<^verbatim>\<open>waitPriMap\<close> (a list of pairs with one pair per iterator).
\<close>

record PriorityState =
  pri_ba :: BlockAssembler
  vecPriority :: "(rat \<times> txiter) list"
  waitPriMap :: "(txiter \<times> rat) list"

text \<open>
  The front of the heap is a greatest element for \<^verbatim>\<open>pricomparer\<close>; which of several
  greatest elements the standard heap holds in front is not fixed by C++, the model takes
  the first one.
\<close>

definition heap_front ::
  "(rat \<times> txiter \<Rightarrow> rat \<times> txiter \<Rightarrow> bool) \<Rightarrow> rat \<times> txiter \<Rightarrow> (rat \<times> txiter) list \<Rightarrow> rat \<times> txiter" where
  "heap_front lt x xs = foldl (\<lambda>m y. if lt m y then y else m) x xs"

text \<open>\<^verbatim>\<open>waitPriMap.insert\<close> keeps an existing pair of the same iterator.\<close>

definition waitPriMap_insert :: "(txiter \<times> rat) list \<Rightarrow> txiter \<Rightarrow> rat \<Rightarrow> (txiter \<times> rat) list" where
  "waitPriMap_insert w it p = (if it \<in> fst ` set w then w else w @ [(it, p)])"

text \<open>
  The loop over the children of an added entry: a child that waits is pushed back to the
  heap and erased from \<^verbatim>\<open>waitPriMap\<close>.
\<close>

definition requeue_child ::
  "(rat \<times> txiter) list \<times> (txiter \<times> rat) list \<Rightarrow> txiter
     \<Rightarrow> (rat \<times> txiter) list \<times> (txiter \<times> rat) list" where
  "requeue_child st child =
     (case map_of (snd st) child of
        None \<Rightarrow> st
      | Some p \<Rightarrow> (fst st @ [(p, child)], filter (\<lambda>kv. fst kv \<noteq> child) (snd st)))"

definition addPriorityTxs_step ::
  "Env \<Rightarrow> CTxMemPool \<Rightarrow> uint64 \<Rightarrow> PriorityState \<Rightarrow> PriorityState step" where
  "addPriorityTxs_step env mp nBlockPrioritySize s =
     (case vecPriority s of
        [] \<Rightarrow> Break s
      | x # xs \<Rightarrow>
          if blockFinished (pri_ba s) then Break s
          else
            let top = heap_front (pricomparer env) x xs;
                itr = snd top;
                actualPriority = fst top;
                vec = remove1 top (vecPriority s)
            in if itr \<in> inBlock (pri_ba s) then Abort AssertionFailed
               else if isStillDependent (pri_ba s) mp itr
               then Continue (s\<lparr> vecPriority := vec,
                                waitPriMap := waitPriMap_insert (waitPriMap s) itr actualPriority \<rparr>)
               else
                 let r = TestForBlock env (pri_ba s) mp itr in
                 if \<not> fst r then Continue (s\<lparr> pri_ba := snd r, vecPriority := vec \<rparr>)
                 else
                   let ba = AddToBlock (snd r) mp itr in
                   if nBlockSize ba \<ge> nBlockPrioritySize \<or> \<not> AllowFree env actualPriority
                   then Break (s\<lparr> pri_ba := ba, vecPriority := vec \<rparr>)
                   else
                     let q = foldl requeue_child (vec, waitPriMap s) (GetMemPoolChildren mp itr)
                     in Continue (s\<lparr> pri_ba := ba, vecPriority := fst q, waitPriMap := snd q \<rparr>))"

subsection \<open>Phase 2: \<^verbatim>\<open>addPackageTxs\<close>\<close>

text \<open>
  The state of the loop: the assembler, the position \<open>mi\<close> in the
  \<^verbatim>\<open>ancestor_score\<close> index, \<^verbatim>\<open>mapModifiedTx\<close>, \<^verbatim>\<open>failedTx\<close> and the counters.
\<close>

record PackageState =
  pkg_ba :: BlockAssembler
  mi :: nat
  mapModifiedTx :: "CTxMemPoolModifiedEntry list"
  failedTx :: "txiter set"
  nConsecutiveFailed :: int
  nPackagesSelected :: int
  nDescendantsUpdated :: int

text \<open>
  \<^verbatim>\<open>mapModifiedTx.get<ancestor_score>().begin()\<close>: a best entry for
  \<^verbatim>\<open>CompareModifiedEntry\<close>, the first one of several.
\<close>

definition best_modified ::
  "(CTxMemPoolModifiedEntry \<Rightarrow> CTxMemPoolModifiedEntry \<Rightarrow> bool) \<Rightarrow> CTxMemPoolModifiedEntry
     \<Rightarrow> CTxMemPoolModifiedEntry list \<Rightarrow> CTxMemPoolModifiedEntry" where
  "best_modified better x xs = foldl (\<lambda>m y. if better y m then y else m) x xs"

text \<open>
  The part of the loop body after the candidate \<open>itr\<close> is chosen: \<open>modit\<close> is the
  modified entry when the candidate comes from \<^verbatim>\<open>mapModifiedTx\<close>
  (\<^verbatim>\<open>fUsingModified\<close>), and \<open>s\<close> already has \<open>mi\<close> advanced when it comes from
  \<^verbatim>\<open>mapTx\<close>.
\<close>

definition erase_failed :: "PackageState \<Rightarrow> CTxMemPoolModifiedEntry option \<Rightarrow> txiter \<Rightarrow> PackageState" where
  "erase_failed s modit itr =
     (case modit of
        None \<Rightarrow> s
      | Some m \<Rightarrow> s\<lparr> mapModifiedTx := filter (\<lambda>e. mod_iter e \<noteq> mod_iter m) (mapModifiedTx s),
                      failedTx := insert itr (failedTx s) \<rparr>)"

definition addPackageTxs_candidate ::
  "Env \<Rightarrow> CTxMemPool \<Rightarrow> PackageState \<Rightarrow> txiter \<Rightarrow> CTxMemPoolModifiedEntry option
     \<Rightarrow> PackageState step" where
  "addPackageTxs_candidate env mp s itr modit =
     (if itr \<in> inBlock (pkg_ba s) then Abort AssertionFailed
      else
        let packageSize = (case modit of None \<Rightarrow> eSizeWithAncestors (deref mp itr)
                                       | Some m \<Rightarrow> nSizeWithAncestors m);
            packageFees = (case modit of None \<Rightarrow> eModFeesWithAncestors (deref mp itr)
                                       | Some m \<Rightarrow> nModFeesWithAncestors m);
            packageSigOps = (case modit of None \<Rightarrow> eSigOpCountWithAncestors (deref mp itr)
                                         | Some m \<Rightarrow> nSigOpCountWithAncestors m)
        in if sint packageFees < sint (blockMinFeeRate_GetFee env packageSize) then Break s
           else if \<not> TestPackage env (pkg_ba s) packageSize packageSigOps then
             (let s1 = (erase_failed s modit itr)\<lparr> nConsecutiveFailed := nConsecutiveFailed s + 1 \<rparr>
              in if nConsecutiveFailed s1 > 1000
                    \<and> nBlockSize (pkg_ba s1) > nMaxGeneratedBlockSize (pkg_ba s1) - 1000
                 then Break s1 else Continue s1)
           else
             let ancestors = insert itr (onlyUnconfirmed (pkg_ba s) (CalculateMemPoolAncestors mp itr))
             in if \<not> TestPackageTransactions env (pkg_ba s) mp ancestors
                then Continue (erase_failed s modit itr)
                else
                  let sortedEntries = SortForBlock mp ancestors;
                      ba = foldl (\<lambda>b e. AddToBlock b mp e) (pkg_ba s) sortedEntries;
                      erased = filter (\<lambda>e. mod_iter e \<notin> set sortedEntries) (mapModifiedTx s);
                      u = UpdatePackagesForAdded mp ancestors erased
                  in Continue (s\<lparr> pkg_ba := ba,
                                   mapModifiedTx := snd u,
                                   nConsecutiveFailed := 0,
                                   nPackagesSelected := nPackagesSelected s + 1,
                                   nDescendantsUpdated := nDescendantsUpdated s + fst u \<rparr>))"

definition addPackageTxs_step :: "Env \<Rightarrow> CTxMemPool \<Rightarrow> PackageState \<Rightarrow> PackageState step" where
  "addPackageTxs_step env mp s =
     (let idx = mapTx_ancestor_score mp in
      if \<not> (mi s < length idx \<or> mapModifiedTx s \<noteq> []) then Break s
      else if mi s < length idx
              \<and> SkipMapTxEntry (pkg_ba s) (idx ! mi s) (mapModifiedTx s) (failedTx s)
      then Continue (s\<lparr> mi := mi s + 1 \<rparr>)
      else
        (case mapModifiedTx s of
           [] \<Rightarrow> addPackageTxs_candidate env mp (s\<lparr> mi := mi s + 1 \<rparr>) (idx ! mi s) None
         | x # xs \<Rightarrow>
             let modit = best_modified (CompareModifiedEntry env) x xs in
             if \<not> mi s < length idx
             then addPackageTxs_candidate env mp s (mod_iter modit) (Some modit)
             else if CompareModifiedEntry env modit (ModifiedEntry mp (idx ! mi s))
             then addPackageTxs_candidate env mp s (mod_iter modit) (Some modit)
             else addPackageTxs_candidate env mp (s\<lparr> mi := mi s + 1 \<rparr>) (idx ! mi s) None))"

subsection \<open>The two loops terminate\<close>

text \<open>
  Each pass of the priority loop that continues either shrinks heap and wait map
  together, or moves one entry from the heap to the wait map.
\<close>

lemma heap_front_in_set: "heap_front lt x xs \<in> set (x # xs)"
  unfolding heap_front_def by (induction xs arbitrary: x) auto

lemma requeue_child_length:
  "length (fst (requeue_child st child)) + length (snd (requeue_child st child))
     \<le> length (fst st) + length (snd st)"
proof (cases "map_of (snd st) child")
  case None
  then show ?thesis by (simp add: requeue_child_def)
next
  case (Some p)
  then have "(child, p) \<in> set (snd st)" by (rule map_of_SomeD)
  then have "length (filter (\<lambda>kv. fst kv \<noteq> child) (snd st)) < length (snd st)"
    by (intro length_filter_less[of "(child, p)"]) auto
  then show ?thesis using Some by (simp add: requeue_child_def)
qed

lemma foldl_requeue_child_length:
  "length (fst (foldl requeue_child st cs)) + length (snd (foldl requeue_child st cs))
     \<le> length (fst st) + length (snd st)"
proof (induction cs arbitrary: st)
  case Nil
  then show ?case by simp
next
  case (Cons c cs)
  have "length (fst (foldl requeue_child (requeue_child st c) cs))
          + length (snd (foldl requeue_child (requeue_child st c) cs))
        \<le> length (fst (requeue_child st c)) + length (snd (requeue_child st c))"
    by (rule Cons.IH)
  also note requeue_child_length
  finally show ?case by simp
qed

lemma waitPriMap_insert_length: "length (waitPriMap_insert w it p) \<le> Suc (length w)"
  by (simp add: waitPriMap_insert_def)

lemma addPriorityTxs_step_decreases:
  assumes "addPriorityTxs_step env mp n s = Continue s'"
  shows "length (vecPriority s') + length (waitPriMap s') < length (vecPriority s) + length (waitPriMap s)
       \<or> (length (vecPriority s') + length (waitPriMap s') = length (vecPriority s) + length (waitPriMap s)
          \<and> length (vecPriority s') < length (vecPriority s))"
proof (cases "vecPriority s")
  case Nil
  with assms show ?thesis by (simp add: addPriorityTxs_step_def)
next
  case (Cons x xs)
  let ?top = "heap_front (pricomparer env) x xs"
  let ?vec = "remove1 ?top (vecPriority s)"
  have top: "?top \<in> set (vecPriority s)" using heap_front_in_set[of "pricomparer env" x xs] Cons by simp
  have "length ?vec = length (vecPriority s) - 1"
    using top by (simp only: length_remove1 if_True)
  moreover have "0 < length (vecPriority s)" using top by (rule length_pos_if_in_set)
  ultimately have len: "Suc (length ?vec) = length (vecPriority s)" by linarith
  note q = foldl_requeue_child_length[of "(?vec, waitPriMap s)" "GetMemPoolChildren mp (snd ?top)"]
  note w = waitPriMap_insert_length[of "waitPriMap s" "snd ?top" "fst ?top"]
  from assms Cons len q w show ?thesis
    unfolding addPriorityTxs_step_def Let_def
    by (auto split: if_splits)
qed

function addPriorityTxs_loop ::
  "Env \<Rightarrow> CTxMemPool \<Rightarrow> uint64 \<Rightarrow> PriorityState \<Rightarrow> error + PriorityState" where
  "addPriorityTxs_loop env mp nBlockPrioritySize s =
     (case addPriorityTxs_step env mp nBlockPrioritySize s of
        Continue s' \<Rightarrow> addPriorityTxs_loop env mp nBlockPrioritySize s'
      | Break s' \<Rightarrow> Inr s'
      | Abort e \<Rightarrow> Inl e)"
  by pat_completeness auto
termination
proof (relation "measures [\<lambda>(env, mp, n, s). length (vecPriority s) + length (waitPriMap s),
                           \<lambda>(env, mp, n, s). length (vecPriority s)]")
  show "wf (measures [\<lambda>(env, mp, n, s). length (vecPriority s) + length (waitPriMap s),
                      \<lambda>(env, mp, n, s). length (vecPriority s)])"
    by simp
next
  fix env mp nBlockPrioritySize s s'
  assume "addPriorityTxs_step env mp nBlockPrioritySize s = Continue s'"
  from addPriorityTxs_step_decreases[OF this]
  show "((env, mp, nBlockPrioritySize, s'), (env, mp, nBlockPrioritySize, s))
          \<in> measures [\<lambda>(env, mp, n, s). length (vecPriority s) + length (waitPriMap s),
                       \<lambda>(env, mp, n, s). length (vecPriority s)]"
    by auto
qed

declare addPriorityTxs_loop.simps [simp del]

text \<open>
  \<^verbatim>\<open>addPriorityTxs\<close>: nothing happens when no block space is reserved for priority;
  otherwise the heap is filled with every entry of \<^verbatim>\<open>mapTx\<close> and the loop runs.
\<close>

definition addPriorityTxs :: "Env \<Rightarrow> CTxMemPool \<Rightarrow> BlockAssembler \<Rightarrow> error + BlockAssembler" where
  "addPriorityTxs env mp ba =
     (if BlockPriorityPercentage env = 0 then Inr ba
      else
        let nBlockPrioritySize = nMaxGeneratedBlockSize ba * BlockPriorityPercentage env div 100;
            vec = map (\<lambda>it. (ePriority (deref mp it) (nHeight ba), it)) (mapTx mp)
        in case addPriorityTxs_loop env mp nBlockPrioritySize
                  \<lparr> pri_ba = ba, vecPriority = vec, waitPriMap = [] \<rparr> of
             Inl e \<Rightarrow> Inl e
           | Inr s \<Rightarrow> Inr (pri_ba s))"

text \<open>
  The package loop: the iterators that can still be chosen are those of the
  \<^verbatim>\<open>ancestor_score\<close> index, the children of pool entries and the iterators of
  \<^verbatim>\<open>mapModifiedTx\<close>, less those in the block.  A pass that continues either puts one of
  them into the block, or advances \<open>mi\<close>, or erases an entry of \<^verbatim>\<open>mapModifiedTx\<close>.
\<close>

definition package_universe :: "CTxMemPool \<Rightarrow> PackageState \<Rightarrow> txiter set" where
  "package_universe mp s =
     (set (mapTx_ancestor_score mp) \<union> Range (childRel mp) \<union> mod_iter ` set (mapModifiedTx s))
       - inBlock (pkg_ba s)"

lemma best_modified_in_set: "best_modified better x xs \<in> set (x # xs)"
  unfolding best_modified_def by (induction xs arbitrary: x) auto

lemma finite_childRel: "finite (childRel mp)"
  unfolding childRel_def by (rule finite_set)

lemma finite_package_universe: "finite (package_universe mp s)"
  unfolding package_universe_def using finite_Range[OF finite_childRel, of mp] by simp

lemma inBlock_AddToBlock: "inBlock (AddToBlock ba mp it) = insert it (inBlock ba)"
  by (simp add: AddToBlock_def Let_def)

lemma inBlock_foldl_AddToBlock:
  "inBlock (foldl (\<lambda>b e. AddToBlock b mp e) ba xs) = inBlock ba \<union> set xs"
  by (induction xs arbitrary: ba) (auto simp: inBlock_AddToBlock)

lemma finite_parentRel: "finite (parentRel mp)"
  unfolding parentRel_def by (rule finite_set)

lemma finite_CalculateMemPoolAncestors: "finite (CalculateMemPoolAncestors mp it)"
  unfolding CalculateMemPoolAncestors_def using finite_trancl[THEN iffD2, OF finite_parentRel, of mp] by simp

lemma finite_CalculateDescendants: "finite (CalculateDescendants mp it)"
  unfolding CalculateDescendants_def using finite_trancl[THEN iffD2, OF finite_childRel, of mp] by simp

lemma CalculateDescendants_subset:
  "CalculateDescendants mp it \<subseteq> insert it (Range (childRel mp))"
  by (auto simp: CalculateDescendants_def Range_iff dest: tranclD2)

lemma set_SortForBlock: "finite A \<Longrightarrow> set (SortForBlock mp A) = A"
  by (simp add: SortForBlock_def)

lemma set_sorted_list_of_set_subset: "set (sorted_list_of_set A) \<subseteq> A"
  by (cases "finite A") simp_all

lemma mod_iter_update [simp]: "mod_iter (update_for_parent_inclusion mp it e) = mod_iter e"
  by (simp add: update_for_parent_inclusion_def)

lemma mod_iter_ModifiedEntry [simp]: "mod_iter (ModifiedEntry mp it) = it"
  by (simp add: ModifiedEntry_def)

lemma UpdateDescendant_iters:
  "mod_iter ` set (snd (UpdateDescendant mp A it st desc))
     \<subseteq> mod_iter ` set (snd st) \<union> ({desc} - A)"
  by (auto simp: UpdateDescendant_def)

lemma foldl_UpdateDescendant_iters:
  "mod_iter ` set (snd (foldl (UpdateDescendant mp A it) st ds))
     \<subseteq> mod_iter ` set (snd st) \<union> (set ds - A)"
proof (induction ds arbitrary: st)
  case Nil
  then show ?case by simp
next
  case (Cons d ds)
  have "mod_iter ` set (snd (foldl (UpdateDescendant mp A it) (UpdateDescendant mp A it st d) ds))
          \<subseteq> mod_iter ` set (snd (UpdateDescendant mp A it st d)) \<union> (set ds - A)"
    by (rule Cons.IH)
  also have "\<dots> \<subseteq> (mod_iter ` set (snd st) \<union> ({d} - A)) \<union> (set ds - A)"
    using UpdateDescendant_iters[of mp A it st d] by blast
  finally show ?case by auto
qed

lemma foldl_outer_iters:
  assumes "set its \<subseteq> A"
  shows "mod_iter ` set (snd (foldl (\<lambda>st it. foldl (UpdateDescendant mp A it) st
                       (sorted_list_of_set (CalculateDescendants mp it))) st its))
     \<subseteq> mod_iter ` set (snd st) \<union> Range (childRel mp)"
  using assms
proof (induction its arbitrary: st)
  case Nil
  then show ?case by simp
next
  case (Cons i its)
  let ?st1 = "foldl (UpdateDescendant mp A i) st (sorted_list_of_set (CalculateDescendants mp i))"
  have i: "i \<in> A" and its: "set its \<subseteq> A" using Cons.prems by auto
  have "set (sorted_list_of_set (CalculateDescendants mp i)) - A \<subseteq> Range (childRel mp)"
    using CalculateDescendants_subset[of mp i] i finite_CalculateDescendants[of mp i] by auto
  then have 1: "mod_iter ` set (snd ?st1) \<subseteq> mod_iter ` set (snd st) \<union> Range (childRel mp)"
    using foldl_UpdateDescendant_iters[of mp A i st "sorted_list_of_set (CalculateDescendants mp i)"]
    by blast
  from Cons.IH[OF its, of ?st1] 1 show ?case by auto
qed

lemma UpdatePackagesForAdded_iters:
  "mod_iter ` set (snd (UpdatePackagesForAdded mp A mods))
     \<subseteq> mod_iter ` set mods \<union> Range (childRel mp)"
  unfolding UpdatePackagesForAdded_def
  using foldl_outer_iters[where its = "sorted_list_of_set A" and A = A and mp = mp and st = "(0, mods)"]
    set_sorted_list_of_set_subset[of A] by simp

lemma erase_failed_props:
  "pkg_ba (erase_failed s modit itr) = pkg_ba s"
  "mi (erase_failed s modit itr) = mi s"
  "set (mapModifiedTx (erase_failed s modit itr)) \<subseteq> set (mapModifiedTx s)"
  "length (mapModifiedTx (erase_failed s modit itr)) \<le> length (mapModifiedTx s)"
  "modit = Some m \<Longrightarrow> m \<in> set (mapModifiedTx s)
     \<Longrightarrow> length (mapModifiedTx (erase_failed s modit itr)) < length (mapModifiedTx s)"
  by (auto simp: erase_failed_def split: option.splits intro: length_filter_less)

lemma package_universe_mono:
  assumes "mod_iter ` set (mapModifiedTx s') \<subseteq> mod_iter ` set (mapModifiedTx s) \<union> Range (childRel mp)"
    and "inBlock (pkg_ba s) \<subseteq> inBlock (pkg_ba s')"
  shows "package_universe mp s' \<subseteq> package_universe mp s"
  using assms unfolding package_universe_def by blast

text \<open>What a pass that continues does to the two measures.\<close>

definition package_decreases :: "CTxMemPool \<Rightarrow> PackageState \<Rightarrow> PackageState \<Rightarrow> bool" where
  "package_decreases mp s' s \<longleftrightarrow>
     card (package_universe mp s') < card (package_universe mp s)
     \<or> (card (package_universe mp s') \<le> card (package_universe mp s)
        \<and> (length (mapTx_ancestor_score mp) - mi s') + length (mapModifiedTx s')
            < (length (mapTx_ancestor_score mp) - mi s) + length (mapModifiedTx s))"

lemma addPackageTxs_candidate_decreases:
  assumes c: "addPackageTxs_candidate env mp s itr modit = Continue s'"
    and itr: "itr \<in> set (mapTx_ancestor_score mp) \<union> mod_iter ` set (mapModifiedTx s)"
    and m: "\<And>m. modit = Some m \<Longrightarrow> m \<in> set (mapModifiedTx s)"
  shows "mi s' = mi s
      \<and> (card (package_universe mp s') < card (package_universe mp s)
         \<or> (card (package_universe mp s') \<le> card (package_universe mp s)
            \<and> length (mapModifiedTx s') \<le> length (mapModifiedTx s)
            \<and> (modit \<noteq> None \<longrightarrow> length (mapModifiedTx s') < length (mapModifiedTx s))))"
proof -
  let ?ps = "(case modit of None \<Rightarrow> eSizeWithAncestors (deref mp itr) | Some m \<Rightarrow> nSizeWithAncestors m)"
  let ?pf = "(case modit of None \<Rightarrow> eModFeesWithAncestors (deref mp itr) | Some m \<Rightarrow> nModFeesWithAncestors m)"
  let ?po = "(case modit of None \<Rightarrow> eSigOpCountWithAncestors (deref mp itr) | Some m \<Rightarrow> nSigOpCountWithAncestors m)"
  let ?anc = "insert itr (onlyUnconfirmed (pkg_ba s) (CalculateMemPoolAncestors mp itr))"
  from c have nin: "itr \<notin> inBlock (pkg_ba s)"
    by (auto simp: addPackageTxs_candidate_def split: if_splits)
  from c nin have fee: "\<not> sint ?pf < sint (blockMinFeeRate_GetFee env ?ps)"
    by (auto simp: addPackageTxs_candidate_def Let_def split: if_splits)
  have failcase: "mi (erase_failed s modit itr) = mi s
      \<and> card (package_universe mp (erase_failed s modit itr)) \<le> card (package_universe mp s)
      \<and> length (mapModifiedTx (erase_failed s modit itr)) \<le> length (mapModifiedTx s)
      \<and> (modit \<noteq> None \<longrightarrow> length (mapModifiedTx (erase_failed s modit itr)) < length (mapModifiedTx s))"
  proof -
    have "package_universe mp (erase_failed s modit itr) \<subseteq> package_universe mp s"
      using erase_failed_props(3)[of s modit itr]
      by (intro package_universe_mono) (auto simp: erase_failed_props(1))
    then have "card (package_universe mp (erase_failed s modit itr)) \<le> card (package_universe mp s)"
      using finite_package_universe by (intro card_mono)
    then show ?thesis
      using erase_failed_props(2,4)[of s modit itr] erase_failed_props(5)[of modit _ s itr] m
      by auto
  qed
  show ?thesis
  proof (cases "TestPackage env (pkg_ba s) ?ps ?po")
    case False
    let ?s1 = "(erase_failed s modit itr)\<lparr> nConsecutiveFailed := nConsecutiveFailed s + 1 \<rparr>"
    from c nin fee False have s': "s' = ?s1"
      by (auto simp: addPackageTxs_candidate_def Let_def split: if_splits)
    have "package_universe mp ?s1 = package_universe mp (erase_failed s modit itr)"
      by (simp add: package_universe_def)
    with failcase show ?thesis unfolding s' by simp
  next
    case tp: True
    show ?thesis
    proof (cases "TestPackageTransactions env (pkg_ba s) mp ?anc")
      case False
      from c nin fee tp False have s': "s' = erase_failed s modit itr"
        by (auto simp: addPackageTxs_candidate_def Let_def split: if_splits)
      with failcase show ?thesis by simp
    next
      case True
      let ?sorted = "SortForBlock mp ?anc"
      let ?ba = "foldl (\<lambda>b e. AddToBlock b mp e) (pkg_ba s) ?sorted"
      let ?erased = "filter (\<lambda>e. mod_iter e \<notin> set ?sorted) (mapModifiedTx s)"
      let ?u = "UpdatePackagesForAdded mp ?anc ?erased"
      from c nin fee tp True have s': "s' = s\<lparr> pkg_ba := ?ba, mapModifiedTx := snd ?u,
                                   nConsecutiveFailed := 0,
                                   nPackagesSelected := nPackagesSelected s + 1,
                                   nDescendantsUpdated := nDescendantsUpdated s + fst ?u \<rparr>"
        by (auto simp: addPackageTxs_candidate_def Let_def split: if_splits)
      have fin: "finite ?anc"
        using finite_CalculateMemPoolAncestors[of mp itr] by (simp add: onlyUnconfirmed_def)
      have ib: "inBlock (pkg_ba s') = inBlock (pkg_ba s) \<union> ?anc"
        unfolding s' using set_SortForBlock[OF fin, of mp] by (simp add: inBlock_foldl_AddToBlock)
      have "mod_iter ` set (snd ?u) \<subseteq> mod_iter ` set ?erased \<union> Range (childRel mp)"
        by (rule UpdatePackagesForAdded_iters)
      then have mods: "mod_iter ` set (mapModifiedTx s') \<subseteq> mod_iter ` set (mapModifiedTx s) \<union> Range (childRel mp)"
        unfolding s' by auto
      have sub: "package_universe mp s' \<subseteq> package_universe mp s"
        using mods ib by (intro package_universe_mono) auto
      have "itr \<in> package_universe mp s" using itr nin by (auto simp: package_universe_def)
      moreover have "itr \<notin> package_universe mp s'" using ib by (simp add: package_universe_def)
      ultimately have "package_universe mp s' \<subset> package_universe mp s" using sub by blast
      then have "card (package_universe mp s') < card (package_universe mp s)"
        using finite_package_universe by (intro psubset_card_mono)
      moreover have "mi s' = mi s" unfolding s' by simp
      ultimately show ?thesis by simp
    qed
  qed
qed

lemma addPackageTxs_step_decreases:
  assumes "addPackageTxs_step env mp s = Continue s'"
  shows "package_decreases mp s' s"
proof -
  let ?idx = "mapTx_ancestor_score mp"
  have cond: "mi s < length ?idx \<or> mapModifiedTx s \<noteq> []"
    using assms by (auto simp: addPackageTxs_step_def Let_def split: if_splits)
  show ?thesis
  proof (cases "mi s < length ?idx \<and> SkipMapTxEntry (pkg_ba s) (?idx ! mi s) (mapModifiedTx s) (failedTx s)")
    case True
    with assms cond have "s' = s\<lparr> mi := mi s + 1 \<rparr>"
      by (auto simp: addPackageTxs_step_def Let_def split: if_splits)
    moreover have "package_universe mp (s\<lparr> mi := mi s + 1 \<rparr>) = package_universe mp s"
      by (simp add: package_universe_def)
    ultimately show ?thesis using True by (auto simp: package_decreases_def)
  next
    case noskip: False
    have fromTx: "package_decreases mp s' s"
      if c: "addPackageTxs_candidate env mp (s\<lparr> mi := mi s + 1 \<rparr>) (?idx ! mi s) None = Continue s'"
        and lt: "mi s < length ?idx"
    proof -
      have u: "package_universe mp (s\<lparr> mi := mi s + 1 \<rparr>) = package_universe mp s"
        by (simp add: package_universe_def)
      have "?idx ! mi s \<in> set ?idx \<union> mod_iter ` set (mapModifiedTx (s\<lparr> mi := mi s + 1 \<rparr>))"
        using lt by simp
      from addPackageTxs_candidate_decreases[OF c this] u lt
      show ?thesis by (auto simp: package_decreases_def)
    qed
    have fromMod: "package_decreases mp s' s"
      if c: "addPackageTxs_candidate env mp s (mod_iter m) (Some m) = Continue s'"
        and m: "m \<in> set (mapModifiedTx s)" for m
    proof -
      have "mod_iter m \<in> set ?idx \<union> mod_iter ` set (mapModifiedTx s)" using m by simp
      from addPackageTxs_candidate_decreases[OF c this] m
      show ?thesis by (auto simp: package_decreases_def)
    qed
    show ?thesis
    proof (cases "mapModifiedTx s")
      case Nil
      with cond have lt: "mi s < length ?idx" by simp
      from assms cond noskip Nil
      have "addPackageTxs_candidate env mp (s\<lparr> mi := mi s + 1 \<rparr>) (?idx ! mi s) None = Continue s'"
        by (auto simp: addPackageTxs_step_def Let_def split: if_splits)
      then show ?thesis using lt by (rule fromTx)
    next
      case (Cons x xs)
      let ?m = "best_modified (CompareModifiedEntry env) x xs"
      have min: "?m \<in> set (mapModifiedTx s)" using best_modified_in_set[of _ x xs] Cons by simp
      from assms cond noskip Cons
      have "(addPackageTxs_candidate env mp s (mod_iter ?m) (Some ?m) = Continue s')
            \<or> (mi s < length ?idx
               \<and> addPackageTxs_candidate env mp (s\<lparr> mi := mi s + 1 \<rparr>) (?idx ! mi s) None = Continue s')"
        by (auto simp: addPackageTxs_step_def Let_def split: if_splits)
      then show ?thesis using fromMod[OF _ min] fromTx by blast
    qed
  qed
qed

function addPackageTxs_loop :: "Env \<Rightarrow> CTxMemPool \<Rightarrow> PackageState \<Rightarrow> error + PackageState" where
  "addPackageTxs_loop env mp s =
     (case addPackageTxs_step env mp s of
        Continue s' \<Rightarrow> addPackageTxs_loop env mp s'
      | Break s' \<Rightarrow> Inr s'
      | Abort e \<Rightarrow> Inl e)"
  by pat_completeness auto
termination
proof (relation "measures [\<lambda>(env, mp, s). card (package_universe mp s),
                           \<lambda>(env, mp, s). (length (mapTx_ancestor_score mp) - mi s)
                                             + length (mapModifiedTx s)]")
  show "wf (measures [\<lambda>(env, mp, s). card (package_universe mp s),
                      \<lambda>(env, mp, s). (length (mapTx_ancestor_score mp) - mi s)
                                        + length (mapModifiedTx s)])"
    by simp
next
  fix env mp s s'
  assume "addPackageTxs_step env mp s = Continue s'"
  from addPackageTxs_step_decreases[OF this]
  show "((env, mp, s'), (env, mp, s))
          \<in> measures [\<lambda>(env, mp, s). card (package_universe mp s),
                       \<lambda>(env, mp, s). (length (mapTx_ancestor_score mp) - mi s)
                                         + length (mapModifiedTx s)]"
    by (auto simp: package_decreases_def)
qed

declare addPackageTxs_loop.simps [simp del]

text \<open>
  \<^verbatim>\<open>addPackageTxs\<close>: \<^verbatim>\<open>mapModifiedTx\<close> starts with the descendants of what phase 1 put
  into the block; the result is the assembler with the two counters.
\<close>

definition addPackageTxs ::
  "Env \<Rightarrow> CTxMemPool \<Rightarrow> BlockAssembler \<Rightarrow> error + BlockAssembler \<times> int \<times> int" where
  "addPackageTxs env mp ba =
     (case addPackageTxs_loop env mp
             \<lparr> pkg_ba = ba, mi = 0,
               mapModifiedTx = snd (UpdatePackagesForAdded mp (inBlock ba) []),
               failedTx = {}, nConsecutiveFailed = 0, nPackagesSelected = 0,
               nDescendantsUpdated = 0 \<rparr> of
        Inl e \<Rightarrow> Inl e
      | Inr s \<Rightarrow> Inr (pkg_ba s, nPackagesSelected s, nDescendantsUpdated s))"

subsection \<open>\<^verbatim>\<open>CreateNewBlock\<close>\<close>

text \<open>
  \<^verbatim>\<open>UpdateTime\<close>: the block time moves forward to the later of the median time past
  plus one and the adjusted time; on networks that allow minimum-difficulty blocks the
  work requirement is recomputed.
\<close>

definition UpdateTime :: "Env \<Rightarrow> CBlockIndex \<Rightarrow> CBlock \<Rightarrow> CBlock" where
  "UpdateTime env pindexPrev pblock =
     (let nOldTime = uint (nTime pblock);
          nNewTime = max (tip_MedianTimePast pindexPrev + 1) (GetAdjustedTime env);
          b1 = (if nOldTime < nNewTime then pblock\<lparr> nTime := word_of_int nNewTime \<rparr> else pblock)
      in if fPowAllowMinDifficultyBlocks env then b1\<lparr> nBits := GetNextWorkRequired env b1 \<rparr>
         else b1)"

text \<open>
  The default-constructed transaction that \<^verbatim>\<open>vtx.emplace_back()\<close> leaves in slot 0
  until the coinbase replaces it, and the coinbase that \<^verbatim>\<open>CreateNewBlock\<close> builds:
  one input with a null previous output that carries the height, one output that
  carries the fees and the subsidy.
\<close>

definition CTransaction_null :: CTransaction where
  "CTransaction_null = \<lparr> nTxVersion = 1, nFlags = 0, vin = [], vout = [], hash = 0 \<rparr>"

definition MakeTransactionRef :: "Env \<Rightarrow> CTransaction \<Rightarrow> CTransaction" where
  "MakeTransactionRef env tx = tx\<lparr> hash := SerializeHash env tx \<rparr>"

definition coinbaseTx :: "Env \<Rightarrow> BlockAssembler \<Rightarrow> CScript \<Rightarrow> CTransaction" where
  "coinbaseTx env ba scriptPubKeyIn =
     (let out0 = \<lparr> nValue = nFees ba + GetBlockSubsidy env (nHeight ba), nPrincipal = 0,
                   scriptPubKey = scriptPubKeyIn, strContent = [],
                   nLockTime = COINBASE_MATURITY env \<rparr>;
          in0 = \<lparr> prevout = \<lparr> prevout_hash = 0, prevout_n = word_of_int (nHeight ba),
                                prevout_nValue = nValue out0 \<rparr>,
                  scriptSig = [0] \<rparr>
      in \<lparr> nTxVersion = 1, nFlags = TX_FLAGS_COINBASE, vin = [in0], vout = [out0], hash = 0 \<rparr>)"

text \<open>
  The start of \<^verbatim>\<open>CreateNewBlock\<close>: \<^verbatim>\<open>resetBlock\<close>, a fresh template with the dummy
  coinbase slot and the two \<open>-1\<close> placeholders, and the header fields taken from the
  tip and the clock.
\<close>

definition initialAssembler :: "Env \<Rightarrow> CBlockIndex \<Rightarrow> BlockAssembler" where
  "initialAssembler env pindexPrev =
     (let v = ComputeBlockVersion env;
          pblock = \<lparr> nVersion = (if MineBlocksOnDemand env
                                   then (case blockversion env of None \<Rightarrow> v | Some a \<Rightarrow> a)
                                   else v),
                     hashPrevBlock = 0, hashMerkleRoot = 0,
                     nBlockHeight = word_of_int (tip_nHeight pindexPrev + 1),
                     nTime = word_of_int (GetAdjustedTime env),
                     nChainInterest = 0, nBits = 0, hashMix = 0, nNonce = 0,
                     vtx = [CTransaction_null] \<rparr>
      in resetBlock
           \<lparr> pblocktemplate = \<lparr> block = pblock, vTxFees = [- 1], vTxSigOpsCount = [- 1] \<rparr>,
             inBlock = {}, nBlockSize = 0, nBlockSigOps = 0, nBlockTx = 0, nFees = 0,
             nInterest = 0, lastFewTxs = 0, blockFinished = False,
             nHeight = tip_nHeight pindexPrev + 1,
             nLockTimeCutoff = uint (nTime pblock),
             nMaxGeneratedBlockSize = ComputeMaxGeneratedBlockSize env \<rparr>)"

text \<open>
  The end of \<^verbatim>\<open>CreateNewBlock\<close>: the coinbase goes to slot 0, the chain interest and
  the header are filled in, and \<^verbatim>\<open>TestBlockValidity\<close> decides between the template
  and the \<^verbatim>\<open>runtime_error\<close>.
\<close>

definition finishBlock ::
  "Env \<Rightarrow> CBlockIndex \<Rightarrow> CScript \<Rightarrow> BlockAssembler \<Rightarrow> error + CBlockTemplate" where
  "finishBlock env pindexPrev scriptPubKeyIn ba =
     (let cb = MakeTransactionRef env (coinbaseTx env ba scriptPubKeyIn);
          t = pblocktemplate ba;
          b1 = (block t)\<lparr> vtx := (vtx (block t))[0 := cb],
                          nChainInterest := tip_nChainInterest pindexPrev + nInterest ba,
                          hashPrevBlock := tip_hash pindexPrev \<rparr>;
          b2 = UpdateTime env pindexPrev b1;
          b3 = b2\<lparr> nBits := GetNextWorkRequired env b2, nNonce := 0 \<rparr>;
          t1 = t\<lparr> block := b3,
                  vTxFees := (vTxFees t)[0 := - 1 * nFees ba],
                  vTxSigOpsCount := (vTxSigOpsCount t)[0 := GetSigOpCountWithoutP2SH env cb] \<rparr>
      in if \<not> TestBlockValidity env b3 then Inl TestBlockValidityFailed else Inr t1)"

definition CreateNewBlock ::
  "Env \<Rightarrow> CTxMemPool \<Rightarrow> CBlockIndex \<Rightarrow> CScript \<Rightarrow> error + CBlockTemplate" where
  "CreateNewBlock env mp pindexPrev scriptPubKeyIn =
     (case addPriorityTxs env mp (initialAssembler env pindexPrev) of
        Inl e \<Rightarrow> Inl e
      | Inr ba1 \<Rightarrow>
          (case addPackageTxs env mp ba1 of
             Inl e \<Rightarrow> Inl e
           | Inr r \<Rightarrow> finishBlock env pindexPrev scriptPubKeyIn (fst r)))"

subsection \<open>What the assembler keeps true\<close>

text \<open>
  \<open>assembled mp ba its\<close>: the entries \<open>its\<close> are, in this order, what \<^verbatim>\<open>AddToBlock\<close>
  has put behind the coinbase slot; the template lists their transactions and fees, the
  totals are their sums, \<^verbatim>\<open>inBlock\<close> is their set, and none occurs twice.
\<close>

definition assembled :: "CTxMemPool \<Rightarrow> BlockAssembler \<Rightarrow> txiter list \<Rightarrow> bool" where
  "assembled mp ba its \<longleftrightarrow>
     (\<exists>first. vtx (block (pblocktemplate ba)) = first # map (\<lambda>i. eTx (deref mp i)) its)
     \<and> (\<exists>fee0. vTxFees (pblocktemplate ba) = fee0 # map (\<lambda>i. eFee (deref mp i)) its)
     \<and> nFees ba = sum_list (map (\<lambda>i. eFee (deref mp i)) its)
     \<and> nInterest ba = sum_list (map (\<lambda>i. eInterest (deref mp i)) its)
     \<and> inBlock ba = set its
     \<and> distinct its"

text \<open>Every parent of an entry of the list stands before it.\<close>

definition parents_first :: "CTxMemPool \<Rightarrow> txiter list \<Rightarrow> bool" where
  "parents_first mp its \<longleftrightarrow>
     (\<forall>j<length its. set (GetMemPoolParents mp (its ! j)) \<subseteq> set (take j its))"

text \<open>
  What the pool guarantees to the assembler (the pool's code is outside the sources at
  hand): both indexes list the same entries, the links stay inside the pool, an entry
  has more ancestors than each of its parents (the comment in \<^verbatim>\<open>SortForBlock\<close> relies
  on it), and an iterator is the id of its transaction.
\<close>

definition mempool_consistent :: "CTxMemPool \<Rightarrow> bool" where
  "mempool_consistent mp \<longleftrightarrow>
     set (mapTx_ancestor_score mp) \<subseteq> set (mapTx mp)
     \<and> (\<forall>c\<in>set (mapTx mp).
           set (GetMemPoolParents mp c) \<subseteq> set (mapTx mp)
         \<and> set (GetMemPoolChildren mp c) \<subseteq> set (mapTx mp)
         \<and> (\<forall>p\<in>set (GetMemPoolParents mp c).
               eCountWithAncestors (deref mp p) < eCountWithAncestors (deref mp c))
         \<and> hash (eTx (deref mp c)) = c)"

definition pri_inv :: "CTxMemPool \<Rightarrow> PriorityState \<Rightarrow> bool" where
  "pri_inv mp s \<longleftrightarrow>
     (\<exists>its. assembled mp (pri_ba s) its \<and> parents_first mp its \<and> set its \<subseteq> set (mapTx mp))
     \<and> snd ` set (vecPriority s) \<union> fst ` set (waitPriMap s) \<subseteq> set (mapTx mp)"

definition pkg_inv :: "CTxMemPool \<Rightarrow> PackageState \<Rightarrow> bool" where
  "pkg_inv mp s \<longleftrightarrow>
     (\<exists>its. assembled mp (pkg_ba s) its
        \<and> (mempool_consistent mp \<longrightarrow>
              parents_first mp its \<and> set its \<subseteq> set (mapTx mp)
            \<and> mod_iter ` set (mapModifiedTx s) \<subseteq> set (mapTx mp)))"


section \<open>Sample values\<close>

text \<open>
  Small concrete values on which the theorems below are run: a transaction with one
  output, a block that holds it, collaborators whose chain state is the hash of the
  tip, and a worker with an empty registry whose tip has hash 2.
\<close>

definition sample_tx :: "CAmount \<Rightarrow> CTransaction" where
  "sample_tx v =
     \<lparr> nTxVersion = 1, nFlags = 1, vin = [],
       vout = [\<lparr> nValue = v, nPrincipal = 0, scriptPubKey = [], strContent = [], nLockTime = 100 \<rparr>],
       hash = 0 \<rparr>"

definition sample_block :: "uint256 \<Rightarrow> CTransaction list \<Rightarrow> CBlock" where
  "sample_block prev txs =
     \<lparr> nVersion = 3, hashPrevBlock = prev, hashMerkleRoot = 0, nBlockHeight = 1, nTime = 0,
       nChainInterest = 0, nBits = 0, hashMix = 0, nNonce = 0, vtx = txs \<rparr>"

definition sample_validation :: "nat Validation" where
  "sample_validation =
     \<lparr> TipBlockHash = (\<lambda>c. c), ProcessNewBlock = (\<lambda>c b. (True, hashPrevBlock b + 1)),
       BlockGetHash = (\<lambda>b. hashPrevBlock b + 1), SerializeEthash = (\<lambda>b. 7), MAX_MONEY = 100 \<rparr>"

definition sample_worker :: "nat MineWorker" where
  "sample_worker = \<lparr> listWork = [], chain = 2, mapRequestCount = Map.empty, submitted = [] \<rparr>"

text \<open>
  An Ethash without collisions: the seven fields of the base header, paired up into one
  number.
\<close>

definition sample_ethash :: "CBlockHeaderBase \<Rightarrow> ethash_h256" where
  "sample_ethash hb =
     (case hb of (v, hp, hm, ht, tm, ci, bits) \<Rightarrow>
        prod_encode (int_encode v, prod_encode (hp, prod_encode (hm,
          prod_encode (unat ht, prod_encode (unat tm,
            prod_encode (unat ci, unat bits)))))))"

text \<open>
  A pool with two entries: the parent (iterator 2) pays a fee of 300 and carries an output
  that locks a principal of 1000 for a value of 1100; the child (iterator 3) spends an
  output of the parent, pays a fee of 200 and comes first in the ancestor-score index.  The collaborators accept every
  transaction and every block, the subsidy is 5000 at every height, and the tip is at
  height 10 with a chain interest of 7.
\<close>

definition sample_pool_tx :: "nat \<Rightarrow> CAmount \<Rightarrow> CAmount \<Rightarrow> CTransaction" where
  "sample_pool_tx n v p =
     \<lparr> nTxVersion = 1, nFlags = 0, vin = [],
       vout = [\<lparr> nValue = v, nPrincipal = p, scriptPubKey = [], strContent = [], nLockTime = 0 \<rparr>],
       hash = n \<rparr>"

definition sample_parent :: CTxMemPoolEntry where
  "sample_parent =
     \<lparr> eTx = sample_pool_tx 2 1100 1000, eFee = 300, eTxSize = 200, eModifiedFee = 300,
       eSigOpCount = 1, eInterest = 100, ePriority = (\<lambda>h. 0), eCountWithAncestors = 1,
       eSizeWithAncestors = 200, eModFeesWithAncestors = 300, eSigOpCountWithAncestors = 1,
       eParents = [], eChildren = [3] \<rparr>"

definition sample_child :: CTxMemPoolEntry where
  "sample_child =
     \<lparr> eTx = sample_pool_tx 3 50 0, eFee = 200, eTxSize = 200, eModifiedFee = 200,
       eSigOpCount = 1, eInterest = 0, ePriority = (\<lambda>h. 0), eCountWithAncestors = 2,
       eSizeWithAncestors = 400, eModFeesWithAncestors = 500, eSigOpCountWithAncestors = 2,
       eParents = [2], eChildren = [] \<rparr>"

definition sample_mempool :: CTxMemPool where
  "sample_mempool =
     \<lparr> mapTx = [2, 3], deref = (\<lambda>it. if it = 2 then sample_parent else sample_child),
       mapTx_ancestor_score = [3, 2] \<rparr>"

definition sample_env :: Env where
  "sample_env =
     \<lparr> GetSerializeSize = (\<lambda>tx. 200), GetMaxBlockSigOpsCount = (\<lambda>n. 20000),
       ContextualCheckTransaction = (\<lambda>tx h t. True), AllowFree = (\<lambda>p. False),
       GetBlockSubsidy = (\<lambda>h. 5000), TestBlockValidity = (\<lambda>b. True),
       pricomparer = (\<lambda>a b. fst a < fst b),
       CompareModifiedEntry = (\<lambda>a b. False), blockMinFeeRate_GetFee = (\<lambda>n. 0),
       BlockPriorityPercentage = 0, blockmaxsize = None,
       DEFAULT_MAX_GENERATED_BLOCK_SIZE = 2000000, MaxBlockSize = 8000000,
       ComputeBlockVersion = 4, MineBlocksOnDemand = False, blockversion = None,
       GetAdjustedTime = 1000, GetNextWorkRequired = (\<lambda>b. 7),
       fPowAllowMinDifficultyBlocks = False, COINBASE_MATURITY = 100,
       GetSigOpCountWithoutP2SH = (\<lambda>tx. 1), SerializeHash = (\<lambda>tx. 99) \<rparr>"

definition sample_tip :: "uint64 \<Rightarrow> CBlockIndex" where
  "sample_tip ci =
     \<lparr> tip_nHeight = 10, tip_nChainInterest = ci, tip_hash = 5, tip_MedianTimePast = 900 \<rparr>"

text \<open>The template that \<^verbatim>\<open>CreateNewBlock\<close> builds from them, for a chain interest \<open>ci\<close>.\<close>

definition sample_template :: "uint64 \<Rightarrow> CBlockTemplate" where
  "sample_template ci =
     \<lparr> block =
         \<lparr> nVersion = 4, hashPrevBlock = 5, hashMerkleRoot = 0, nBlockHeight = 11, nTime = 1000,
           nChainInterest = ci, nBits = 7, hashMix = 0, nNonce = 0,
           vtx = [\<lparr> nTxVersion = 1, nFlags = 1,
                    vin = [\<lparr> prevout = \<lparr> prevout_hash = 0, prevout_n = 11, prevout_nValue = 5500 \<rparr>,
                             scriptSig = [0] \<rparr>],
                    vout = [\<lparr> nValue = 5500, nPrincipal = 0, scriptPubKey = [], strContent = [],
                              nLockTime = 100 \<rparr>],
                    hash = 99 \<rparr>,
                  sample_pool_tx 2 1100 1000, sample_pool_tx 3 50 0] \<rparr>,
       vTxFees = [- 500, 300, 200],
       vTxSigOpsCount = [1, 1, 1] \<rparr>"


section \<open>Properties of the chain parameters\<close>

subsection \<open>Lock-duration tiers\<close>

text \<open>
  C6 reads the tiers as \<open>(16, 32, 64, 128, 256, 512, 1024, 1024 * blocksPerDay)\<close> blocks.
  The constructors multiply every tier by \<^verbatim>\<open>nBlocksPerDay\<close>: on the main network the
  first tier is \<open>15360\<close> blocks, not \<open>16\<close>.
\<close>

theorem lockThresholds_not_plain_days:
  "nLockInterestBlocksThreshould CMainParams
     \<noteq> [16, 32, 64, 128, 256, 512, 1024, 1024 * BlocksPerDay CMainParams]"
  by (simp add: CMainParams_def mkParams_def)

text \<open>
  C6, as the code has it: on the main, test and regtest networks the eight tiers are
  \<open>16, 32, 64, 128, 256, 512, 1024, 1024\<close> days, each multiplied by the network's
  \<^verbatim>\<open>nBlocksPerDay\<close>.
\<close>

theorem lockThresholds_are_days_times_blocksPerDay:
  "nLockInterestBlocksThreshould CMainParams
     = map (\<lambda>d. d * BlocksPerDay CMainParams) [16, 32, 64, 128, 256, 512, 1024, 1024]
   \<and> nLockInterestBlocksThreshould CTestNetParams
     = map (\<lambda>d. d * BlocksPerDay CTestNetParams) [16, 32, 64, 128, 256, 512, 1024, 1024]
   \<and> nLockInterestBlocksThreshould CRegTestParams
     = map (\<lambda>d. d * BlocksPerDay CRegTestParams) [16, 32, 64, 128, 256, 512, 1024, 1024]"
  by (simp add: CMainParams_def CTestNetParams_def CRegTestParams_def mkParams_def
      BlocksPerDay_def)

subsection \<open>Adjusting a lock time to a tier\<close>

lemma AdjustFrom_none: "\<forall>i<n. lb < thr ! i \<Longrightarrow> AdjustFrom thr lb n = 0"
  by (induction n) auto

lemma AdjustFrom_some:
  assumes "sorted_wrt (\<le>) (take n thr)" "n \<le> length thr" "i < n" "thr ! i \<le> lb"
  shows "AdjustFrom thr lb n \<in> {thr ! j |j. j < n \<and> thr ! j \<le> lb} \<and> (\<forall>j<n. thr ! j \<le> lb \<longrightarrow> thr ! j \<le> AdjustFrom thr lb n)"
  using assms
proof (induction n)
  case 0 then show ?case by simp
next
  case (Suc n)
  show ?case
  proof (cases "thr ! n \<le> lb")
    case True
    have "\<forall>j<Suc n. thr ! j \<le> thr ! n"
    proof (intro allI impI)
      fix j assume j: "j < Suc n"
      show "thr ! j \<le> thr ! n"
      proof (cases "j = n")
        case True then show ?thesis by simp
      next
        case False
        with j have "j < n" by simp
        have "(take (Suc n) thr) ! j \<le> (take (Suc n) thr) ! n"
          using sorted_wrt_nth_less[OF Suc.prems(1), of j n] \<open>j < n\<close> Suc.prems(2) by simp
        then show ?thesis using \<open>j < n\<close> by simp
      qed
    qed
    with True show ?thesis by auto
  next
    case False
    with Suc.prems have i: "i < n" by (cases "i = n") auto
    have s: "sorted_wrt (\<le>) (take n thr)"
      using Suc.prems(1) Suc.prems(2) by (simp add: take_Suc_conv_app_nth sorted_wrt_append)
    from Suc.IH[OF s _ i Suc.prems(4)] Suc.prems(2) False
    show ?thesis by (auto simp: less_Suc_eq)
  qed
qed

lemma AdjustFrom_Max:
  assumes "sorted_wrt (\<le>) (take n thr)" "n \<le> length thr"
  shows "AdjustFrom thr lb n = (if \<exists>i<n. thr ! i \<le> lb then Max {thr ! j |j. j < n \<and> thr ! j \<le> lb} else 0)"
proof (cases "\<exists>i<n. thr ! i \<le> lb")
  case True
  then obtain i where i: "i < n" "thr ! i \<le> lb" by blast
  let ?S = "{thr ! j |j. j < n \<and> thr ! j \<le> lb}"
  have fin: "finite ?S" by simp
  from AdjustFrom_some[OF assms i]
  have mem: "AdjustFrom thr lb n \<in> ?S" and ub: "\<forall>j<n. thr ! j \<le> lb \<longrightarrow> thr ! j \<le> AdjustFrom thr lb n"
    by blast+
  have "Max ?S = AdjustFrom thr lb n"
    using fin mem ub by (intro Max_eqI) auto
  with True show ?thesis by auto
next
  case False
  then have "\<forall>i<n. lb < thr ! i" by (simp add: not_le)
  from AdjustFrom_none[OF this] False show ?thesis by auto
qed

lemma networks_thresholds:
  assumes "P \<in> {CMainParams, CTestNetParams, CRegTestParams}"
  shows "length (nLockInterestBlocksThreshould P) = 8"
    and "sorted_wrt (\<le>) (nLockInterestBlocksThreshould P)"
    and "0 < BlocksPerDay P"
    and "BlocksPerDay P \<le> 960"
    and "nLockInterestBlocksThreshould P = map (\<lambda>d. d * BlocksPerDay P) [16, 32, 64, 128, 256, 512, 1024, 1024]"
  using assms by (auto simp: CMainParams_def CTestNetParams_def CRegTestParams_def mkParams_def BlocksPerDay_def)

lemma int32_mul_small: "- (2 ^ 31) \<le> a * b \<Longrightarrow> a * b < 2 ^ 31 \<Longrightarrow> int32_mul a b = a * b"
  unfolding int32_mul_def sint_sbintrunc' by (simp add: signed_take_bit_int_eq_self)

text \<open>
  C7: on each of the three networks \<^verbatim>\<open>AdjustToLockInterestThreshold\<close> returns the largest
  tier that does not exceed \<open>lockBlocks\<close>, and 0 when every tier exceeds it; and
  \<^verbatim>\<open>getlockinterest\<close> called with \<open>lockdays = 16\<close> and a positive principal answers
  \<open>locktime = 16 * blocksPerDay\<close>.
\<close>

theorem AdjustToLockInterestThreshold_largest_tier:
  assumes "P \<in> {CMainParams, CTestNetParams, CRegTestParams}"
  shows "AdjustToLockInterestThreshold P lockBlocks =
           (if \<exists>i<8. nLockInterestBlocksThreshould P ! i \<le> lockBlocks
            then Max {nLockInterestBlocksThreshould P ! i |i.
                        i < 8 \<and> nLockInterestBlocksThreshould P ! i \<le> lockBlocks}
            else 0)
         \<and> (0 < sint amount \<longrightarrow>
              getlockinterest P GetInterestFn chainHeight
                  \<lparr> fHelp = False, nParams = 2, lockdays = 16, principal = amount \<rparr>
                = Inr \<lparr> locktime = 16 * BlocksPerDay P,
                        interest = GetInterestFn amount (16 * BlocksPerDay P) (chainHeight + 1) \<rparr>)"
proof
  note nt = networks_thresholds[OF assms]
  show "AdjustToLockInterestThreshold P lockBlocks =
           (if \<exists>i<8. nLockInterestBlocksThreshould P ! i \<le> lockBlocks
            then Max {nLockInterestBlocksThreshould P ! i |i.
                        i < 8 \<and> nLockInterestBlocksThreshould P ! i \<le> lockBlocks}
            else 0)"
    unfolding AdjustToLockInterestThreshold_def
    using AdjustFrom_Max[of 8 "nLockInterestBlocksThreshould P" lockBlocks] nt(1) nt(2) by simp
  have m: "int32_mul 16 (BlocksPerDay P) = 16 * BlocksPerDay P"
    using nt(3) nt(4) by (intro int32_mul_small) auto
  have eight: "(8::nat) = Suc (Suc (Suc (Suc (Suc (Suc (Suc (Suc 0)))))))" by simp
  have adj: "AdjustToLockInterestThreshold P (16 * BlocksPerDay P) = 16 * BlocksPerDay P"
    unfolding AdjustToLockInterestThreshold_def nt(5) eight using nt(3) by simp
  show "0 < sint amount \<longrightarrow>
              getlockinterest P GetInterestFn chainHeight
                  \<lparr> fHelp = False, nParams = 2, lockdays = 16, principal = amount \<rparr>
                = Inr \<lparr> locktime = 16 * BlocksPerDay P,
                        interest = GetInterestFn amount (16 * BlocksPerDay P) (chainHeight + 1) \<rparr>"
    using nt(3) by (simp add: getlockinterest_def m adj Let_def)
qed

theorem AdjustToLockInterestThreshold_largest_tier_witness:
  "CRegTestParams \<in> {CMainParams, CTestNetParams, CRegTestParams}
   \<and> AdjustToLockInterestThreshold CRegTestParams 700 = 640
   \<and> AdjustToLockInterestThreshold CRegTestParams 159 = 0
   \<and> 0 < sint (5 :: CAmount)
   \<and> getlockinterest CRegTestParams (\<lambda>p l h. p) 100
        \<lparr> fHelp = False, nParams = 2, lockdays = 16, principal = 5 \<rparr>
      = Inr \<lparr> locktime = 160, interest = 5 \<rparr>"
proof -
  have m: "CRegTestParams \<in> {CMainParams, CTestNetParams, CRegTestParams}" by simp
  have a: "AdjustToLockInterestThreshold CRegTestParams 700 = 640"
    by (simp add: AdjustToLockInterestThreshold_def CRegTestParams_def mkParams_def numeral_nat)
  have b: "AdjustToLockInterestThreshold CRegTestParams 159 = 0"
    by (simp add: AdjustToLockInterestThreshold_def CRegTestParams_def mkParams_def numeral_nat)
  have s: "0 < sint (5 :: CAmount)" by simp
  have bpd: "BlocksPerDay CRegTestParams = 10"
    by (simp add: BlocksPerDay_def CRegTestParams_def mkParams_def)
  from AdjustToLockInterestThreshold_largest_tier[OF m, of 700 5 "\<lambda>p l h. p" 100] s bpd a b m show ?thesis
    by simp
qed

subsection \<open>The old-chain subsidy\<close>



subsection \<open>Rounding to a double\<close>























section \<open>Properties of the output sums\<close>

lemma signed_take_bit_63_wrap:
  fixes k :: int
  assumes "2 ^ 63 \<le> k" "k < 2 ^ 64"
  shows "signed_take_bit 63 k = k - 2 ^ 64"
proof -
  have e: "k + 2 ^ 63 = 2 ^ 64 * 1 + (k - 2 ^ 63)" by simp
  have "(k + 2 ^ 63) mod 2 ^ 64 = k - 2 ^ 63"
    by (rule int_mod_pos_eq[OF e]) (use assms in auto)
  then have "take_bit (Suc 63) (k + 2 ^ 63) = k - 2 ^ 63"
    by (simp add: take_bit_eq_mod)
  then show ?thesis
    unfolding signed_take_bit_eq_take_bit_shift by simp
qed

lemma sint64_add_in_range:
  fixes a x M :: "64 word"
  assumes "0 \<le> sint a" "sint a \<le> sint M" "0 \<le> sint x" "sint x \<le> sint M"
  shows "MoneyRange M (a + x) \<longleftrightarrow> sint a + sint x \<le> sint M"
    and "sint a + sint x \<le> sint M \<Longrightarrow> sint (a + x) = sint a + sint x"
proof -
  have m: "sint M < 2 ^ 63" using sint_lt[of M] by simp
  have s: "sint (a + x) = signed_take_bit 63 (sint a + sint x)"
    using sint_word_add[of a x] by simp
  show 2: "sint a + sint x \<le> sint M \<Longrightarrow> sint (a + x) = sint a + sint x"
    using assms m unfolding s by (intro signed_take_bit_int_eq_self) auto
  show "MoneyRange M (a + x) \<longleftrightarrow> sint a + sint x \<le> sint M"
  proof (cases "sint a + sint x < 2 ^ 63")
    case True
    then have "sint (a + x) = sint a + sint x"
      using assms unfolding s by (intro signed_take_bit_int_eq_self) auto
    then show ?thesis using assms by (simp add: MoneyRange_def)
  next
    case False
    have "signed_take_bit 63 (sint a + sint x) = sint a + sint x - 2 ^ 64"
      using False assms m by (intro signed_take_bit_63_wrap) auto
    then have "sint (a + x) < 0" using s assms m by simp
    then show ?thesis using False m by (simp add: MoneyRange_def)
  qed
qed

lemma ex_less_Cons: "(\<exists>k<length (x # xs). P k) \<longleftrightarrow> P 0 \<or> (\<exists>k<length xs. P (Suc k))"
  by (auto simp: less_Suc_eq_0_disj)

lemma ValueOutViolation_0:
  "ValueOutViolation M (out # rest) a 0 \<longleftrightarrow>
     \<not> (MoneyRange M (nValue out) \<and> 0 \<le> a + sint (nValue out) \<and> a + sint (nValue out) \<le> sint M)"
  by (simp add: ValueOutViolation_def)

lemma ValueOutViolation_Suc:
  "ValueOutViolation M (out # rest) a (Suc k) \<longleftrightarrow> ValueOutViolation M rest (a + sint (nValue out)) k"
  by (simp add: ValueOutViolation_def add.assoc)

lemma InterestViolation_0:
  "InterestViolation M (out # rest) a 0 \<longleftrightarrow>
     nPrincipal out \<noteq> 0 \<and>
     \<not> (MoneyRange M (nValue out) \<and> MoneyRange M (nPrincipal out)
        \<and> 0 \<le> a + OutputInterest out \<and> a + OutputInterest out \<le> sint M)"
  by (simp add: InterestViolation_def)

lemma InterestViolation_Suc:
  "InterestViolation M (out # rest) a (Suc k) \<longleftrightarrow> InterestViolation M rest (a + OutputInterest out) k"
  by (simp add: InterestViolation_def add.assoc)

lemma GetValueOut_loop_char:
  assumes "0 \<le> sint acc" "sint acc \<le> sint M"
  shows "GetValueOut_loop M outs acc =
     (if \<exists>k<length outs. ValueOutViolation M outs (sint acc) k
      then Inl ValueOutOfRange
      else Inr (word_of_int (sint acc + (\<Sum>out\<leftarrow>outs. sint (nValue out)))))"
  using assms
proof (induction outs arbitrary: acc)
  case Nil
  then show ?case by simp
next
  case (Cons out rest)
  let ?v = "sint (nValue out)"
  show ?case
  proof (cases "MoneyRange M (nValue out)")
    case False
    then have "ValueOutViolation M (out # rest) (sint acc) 0" by (simp add: ValueOutViolation_0)
    then have "\<exists>k<length (out # rest). ValueOutViolation M (out # rest) (sint acc) k" by auto
    moreover have "GetValueOut_loop M (out # rest) acc = Inl ValueOutOfRange"
      using False by simp
    ultimately show ?thesis by (simp only: if_True)
  next
    case True
    then have v: "0 \<le> ?v" "?v \<le> sint M" by (simp_all add: MoneyRange_def)
    note r = sint64_add_in_range[OF Cons.prems v]
    show ?thesis
    proof (cases "sint acc + ?v \<le> sint M")
      case False
      then have "\<not> MoneyRange M (acc + nValue out)" using r(1) by simp
      then have L: "GetValueOut_loop M (out # rest) acc = Inl ValueOutOfRange"
        by (simp add: Let_def)
      have "ValueOutViolation M (out # rest) (sint acc) 0" using False by (simp add: ValueOutViolation_0)
      then have "\<exists>k<length (out # rest). ValueOutViolation M (out # rest) (sint acc) k" by auto
      with L show ?thesis by (simp only: if_True)
    next
      case le: True
      then have mr: "MoneyRange M (acc + nValue out)" using r(1) by simp
      have sa: "sint (acc + nValue out) = sint acc + ?v" using r(2)[OF le] .
      have a0: "0 \<le> sint (acc + nValue out)" "sint (acc + nValue out) \<le> sint M"
        using sa le Cons.prems v by simp_all
      have n0: "\<not> ValueOutViolation M (out # rest) (sint acc) 0"
        using True le Cons.prems v by (simp add: ValueOutViolation_0)
      have ex: "(\<exists>k<length (out # rest). ValueOutViolation M (out # rest) (sint acc) k)
                 \<longleftrightarrow> (\<exists>k<length rest. ValueOutViolation M rest (sint (acc + nValue out)) k)"
        unfolding ex_less_Cons ValueOutViolation_Suc sa using n0 by simp
      have tot: "sint acc + (\<Sum>y\<leftarrow>out # rest. sint (nValue y))
                 = sint (acc + nValue out) + (\<Sum>y\<leftarrow>rest. sint (nValue y))"
        by (simp add: sa)
      have "GetValueOut_loop M (out # rest) acc = GetValueOut_loop M rest (acc + nValue out)"
        using True mr by (simp add: Let_def)
      also note Cons.IH[OF a0]
      finally show ?thesis unfolding ex tot .
    qed
  qed
qed

lemma sint64_sub_in_range:
  fixes v p M :: "64 word"
  assumes "0 \<le> sint p" "sint p < sint v" "sint v \<le> sint M"
  shows "sint (v - p) = sint v - sint p"
proof -
  have m: "sint M < 2 ^ 63" using sint_lt[of M] by simp
  have "sint (v - p) = signed_take_bit 63 (sint v - sint p)"
    using sint_word_diff[of v p] by simp
  also have "\<dots> = sint v - sint p"
    using assms m by (intro signed_take_bit_int_eq_self) auto
  finally show ?thesis .
qed

lemma sint_eq_0_iff: "sint (w :: 64 word) = 0 \<longleftrightarrow> w = 0"
  using signed_eq_0_iff[of w, where 'a=int] by simp

lemma GetInterest_loop_char:
  assumes "0 \<le> sint acc" "sint acc \<le> sint M"
  shows "GetInterest_loop M outs acc =
     (if \<exists>k<length outs. InterestViolation M outs (sint acc) k
      then Inl ValueOutOfRange
      else Inr (word_of_int (sint acc + (\<Sum>out\<leftarrow>outs. OutputInterest out))))"
  using assms
proof (induction outs arbitrary: acc)
  case Nil
  then show ?case by simp
next
  case (Cons out rest)
  let ?v = "sint (nValue out)" and ?p = "sint (nPrincipal out)"
  show ?case
  proof (cases "nPrincipal out = 0")
    case True
    then have oi: "OutputInterest out = 0" by (simp add: OutputInterest_def)
    have n0: "\<not> InterestViolation M (out # rest) (sint acc) 0" using True by (simp add: InterestViolation_0)
    have ex: "(\<exists>k<length (out # rest). InterestViolation M (out # rest) (sint acc) k)
               \<longleftrightarrow> (\<exists>k<length rest. InterestViolation M rest (sint acc) k)"
      unfolding ex_less_Cons InterestViolation_Suc oi using n0 by simp
    have tot: "sint acc + (\<Sum>y\<leftarrow>out # rest. OutputInterest y)
               = sint acc + (\<Sum>y\<leftarrow>rest. OutputInterest y)"
      by (simp add: oi)
    have "GetInterest_loop M (out # rest) acc = GetInterest_loop M rest acc"
      using True by simp
    also note Cons.IH[OF Cons.prems]
    finally show ?thesis unfolding ex tot .
  next
    case nz: False
    show ?thesis
    proof (cases "MoneyRange M (nValue out) \<and> MoneyRange M (nPrincipal out)")
      case False
      then have "InterestViolation M (out # rest) (sint acc) 0" using nz by (auto simp: InterestViolation_0)
      then have "\<exists>k<length (out # rest). InterestViolation M (out # rest) (sint acc) k" by auto
      moreover have "GetInterest_loop M (out # rest) acc = Inl ValueOutOfRange"
        using False nz by (auto simp: Let_def)
      ultimately show ?thesis by (simp only: if_True)
    next
      case True
      then have v: "0 \<le> ?v" "?v \<le> sint M" and p: "0 \<le> ?p" "?p \<le> sint M"
        by (simp_all add: MoneyRange_def)
      have ppos: "0 < ?p" using p(1) nz sint_eq_0_iff[of "nPrincipal out"] by linarith
      show ?thesis
      proof (cases "?p < ?v")
        case gt: True
        let ?x = "nValue out - nPrincipal out"
        have sx: "sint ?x = ?v - ?p" using sint64_sub_in_range[OF p(1) gt v(2)] .
        have x: "0 \<le> sint ?x" "sint ?x \<le> sint M" using sx gt v p by simp_all
        have oi: "OutputInterest out = sint ?x" using ppos gt sx by (simp add: OutputInterest_def)
        note r = sint64_add_in_range[OF Cons.prems x]
        show ?thesis
        proof (cases "sint acc + sint ?x \<le> sint M")
          case False
          then have "\<not> MoneyRange M (acc + ?x)" using r(1) by simp
          then have L: "GetInterest_loop M (out # rest) acc = Inl ValueOutOfRange"
            using gt nz by (simp add: Let_def)
          have "InterestViolation M (out # rest) (sint acc) 0" using False nz by (simp add: InterestViolation_0 oi)
          then have "\<exists>k<length (out # rest). InterestViolation M (out # rest) (sint acc) k" by auto
          with L show ?thesis by (simp only: if_True)
        next
          case le: True
          then have mr: "MoneyRange M (acc + ?x)" using r(1) by simp
          have sa: "sint (acc + ?x) = sint acc + sint ?x" using r(2)[OF le] .
          have a0: "0 \<le> sint (acc + ?x)" "sint (acc + ?x) \<le> sint M"
            using sa le Cons.prems x by simp_all
          have n0: "\<not> InterestViolation M (out # rest) (sint acc) 0"
            using True le Cons.prems x by (simp add: InterestViolation_0 oi)
          have ex: "(\<exists>k<length (out # rest). InterestViolation M (out # rest) (sint acc) k)
                     \<longleftrightarrow> (\<exists>k<length rest. InterestViolation M rest (sint (acc + ?x)) k)"
            unfolding ex_less_Cons InterestViolation_Suc sa oi using n0 by simp
          have tot: "sint acc + (\<Sum>y\<leftarrow>out # rest. OutputInterest y)
                     = sint (acc + ?x) + (\<Sum>y\<leftarrow>rest. OutputInterest y)"
            by (simp add: sa oi)
          have "GetInterest_loop M (out # rest) acc = GetInterest_loop M rest (acc + ?x)"
            using True mr gt nz by (simp add: Let_def)
          also note Cons.IH[OF a0]
          finally show ?thesis unfolding ex tot .
        qed
      next
        case ngt: False
        have oi: "OutputInterest out = 0" using ppos ngt by (simp add: OutputInterest_def)
        have mr: "MoneyRange M acc" using Cons.prems by (simp add: MoneyRange_def)
        have n0: "\<not> InterestViolation M (out # rest) (sint acc) 0"
          using True Cons.prems by (simp add: InterestViolation_0 oi)
        have ex: "(\<exists>k<length (out # rest). InterestViolation M (out # rest) (sint acc) k)
                   \<longleftrightarrow> (\<exists>k<length rest. InterestViolation M rest (sint acc) k)"
          unfolding ex_less_Cons InterestViolation_Suc oi using n0 by simp
        have tot: "sint acc + (\<Sum>y\<leftarrow>out # rest. OutputInterest y)
                   = sint acc + (\<Sum>y\<leftarrow>rest. OutputInterest y)"
          by (simp add: oi)
        have "GetInterest_loop M (out # rest) acc = GetInterest_loop M rest acc"
          using True mr ngt nz by (simp add: Let_def)
        also note Cons.IH[OF Cons.prems]
        finally show ?thesis unfolding ex tot .
      qed
    qed
  qed
qed

lemma GetValueOut_loop_negative_max:
  assumes "sint M < 0"
  shows "GetValueOut_loop M outs acc = (if outs = [] then Inr acc else Inl ValueOutOfRange)"
  using assms by (cases outs) (simp_all add: MoneyRange_def Let_def)

lemma GetInterest_loop_negative_max:
  assumes "sint M < 0"
  shows "GetInterest_loop M outs acc =
    (if \<exists>k<length outs. nPrincipal (outs ! k) \<noteq> 0 then Inl ValueOutOfRange else Inr acc)"
proof (induction outs)
  case Nil
  then show ?case by simp
next
  case (Cons out rest)
  have nr: "\<And>x. \<not> MoneyRange M x" using assms by (simp add: MoneyRange_def)
  show ?case
  proof (cases "nPrincipal out = 0")
    case True
    have ex: "(\<exists>k<length (out # rest). nPrincipal ((out # rest) ! k) \<noteq> 0)
               \<longleftrightarrow> (\<exists>k<length rest. nPrincipal (rest ! k) \<noteq> 0)"
      using ex_less_Cons[of out rest "\<lambda>k. nPrincipal ((out # rest) ! k) \<noteq> 0"] True by simp
    have "GetInterest_loop M (out # rest) acc = GetInterest_loop M rest acc"
      using True by simp
    then show ?thesis unfolding ex using Cons.IH by simp
  next
    case False
    then have "\<exists>k<length (out # rest). nPrincipal ((out # rest) ! k) \<noteq> 0" by auto
    moreover have "GetInterest_loop M (out # rest) acc = Inl ValueOutOfRange"
      using False nr by (simp add: Let_def)
    ultimately show ?thesis by (simp only: if_True)
  qed
qed

lemma OutputInterest_sum_zero:
  assumes "\<not> (\<exists>k<length outs. nPrincipal (outs ! k) \<noteq> 0)"
  shows "(\<Sum>y\<leftarrow>outs. OutputInterest y) = 0"
proof -
  have "\<forall>y\<in>set outs. OutputInterest y = 0"
    using assms by (auto simp: in_set_conv_nth OutputInterest_def)
  then show ?thesis by (induction outs) auto
qed

lemma GetValueOut_char:
  "GetValueOut M tx =
     (if \<exists>k<length (vout tx). ValueOutViolation M (vout tx) 0 k
      then Inl ValueOutOfRange
      else Inr (word_of_int (\<Sum>out\<leftarrow>vout tx. sint (nValue out))))"
proof (cases "0 \<le> sint M")
  case True
  have z: "0 \<le> sint (0 :: 64 word)" "sint (0 :: 64 word) \<le> sint M" using True by simp_all
  show ?thesis
    unfolding GetValueOut_def using GetValueOut_loop_char[OF z, of "vout tx"] by simp
next
  case False
  then have neg: "sint M < 0" by simp
  have bad: "\<And>k. ValueOutViolation M (vout tx) 0 k" using neg by (simp add: ValueOutViolation_def MoneyRange_def)
  have ex: "(\<exists>k<length (vout tx). ValueOutViolation M (vout tx) 0 k) \<longleftrightarrow> vout tx \<noteq> []"
    using bad by auto
  show ?thesis
    unfolding GetValueOut_def GetValueOut_loop_negative_max[OF neg] ex by simp
qed

lemma GetInterest_char:
  "GetInterest M tx =
     (if IsCoinBase tx then Inr 0
      else if \<exists>k<length (vout tx). InterestViolation M (vout tx) 0 k
      then Inl ValueOutOfRange
      else Inr (word_of_int (\<Sum>out\<leftarrow>vout tx. OutputInterest out)))"
proof (cases "0 \<le> sint M")
  case True
  have z: "0 \<le> sint (0 :: 64 word)" "sint (0 :: 64 word) \<le> sint M" using True by simp_all
  have "sint (0 :: 64 word) + (\<Sum>y\<leftarrow>vout tx. OutputInterest y) = (\<Sum>y\<leftarrow>vout tx. OutputInterest y)"
    by simp
  then show ?thesis
    unfolding GetInterest_def using GetInterest_loop_char[OF z, of "vout tx"]
    by (simp only: sint_0 split: if_splits)
next
  case False
  then have neg: "sint M < 0" by simp
  have bad: "\<And>k. InterestViolation M (vout tx) 0 k \<longleftrightarrow> nPrincipal (vout tx ! k) \<noteq> 0"
    using neg by (simp add: InterestViolation_def MoneyRange_def)
  show ?thesis
  proof (cases "\<exists>k<length (vout tx). nPrincipal (vout tx ! k) \<noteq> 0")
    case True
    then show ?thesis
      unfolding GetInterest_def GetInterest_loop_negative_max[OF neg] bad by simp
  next
    case none: False
    have "(\<Sum>y\<leftarrow>vout tx. OutputInterest y) = 0" using none by (rule OutputInterest_sum_zero)
    with none show ?thesis
      unfolding GetInterest_def GetInterest_loop_negative_max[OF neg] bad by auto
  qed
qed

text \<open>
  C8.  \<^verbatim>\<open>GetValueOut\<close> raises exactly when, at some output, the value or the sum of
  the values up to it lies outside \<open>[0, MAX_MONEY]\<close>; otherwise it returns the sum of
  the values.  \<^verbatim>\<open>GetInterest\<close> returns 0 for a coinbase; for any other transaction
  it examines the outputs whose principal is not 0, and raises exactly when at one of
  them the value, the principal or the sum of the interests up to it lies outside
  \<open>[0, MAX_MONEY]\<close>; otherwise it returns the sum of the interests.  The sums are
  sums of integers: the 64-bit running sums never wrap unnoticed.
\<close>

theorem GetValueOut_GetInterest_raise_iff:
  "GetValueOut M tx =
     (if \<exists>k<length (vout tx).
           \<not> (MoneyRange M (nValue (vout tx ! k))
              \<and> 0 \<le> (\<Sum>out\<leftarrow>take (Suc k) (vout tx). sint (nValue out))
              \<and> (\<Sum>out\<leftarrow>take (Suc k) (vout tx). sint (nValue out)) \<le> sint M)
      then Inl ValueOutOfRange
      else Inr (word_of_int (\<Sum>out\<leftarrow>vout tx. sint (nValue out))))
   \<and> GetInterest M tx =
     (if IsCoinBase tx then Inr 0
      else if \<exists>k<length (vout tx). nPrincipal (vout tx ! k) \<noteq> 0 \<and>
           \<not> (MoneyRange M (nValue (vout tx ! k)) \<and> MoneyRange M (nPrincipal (vout tx ! k))
              \<and> 0 \<le> (\<Sum>out\<leftarrow>take (Suc k) (vout tx). OutputInterest out)
              \<and> (\<Sum>out\<leftarrow>take (Suc k) (vout tx). OutputInterest out) \<le> sint M)
      then Inl ValueOutOfRange
      else Inr (word_of_int (\<Sum>out\<leftarrow>vout tx. OutputInterest out)))"
  using GetValueOut_char[of M tx] GetInterest_char[of M tx]
  unfolding ValueOutViolation_def InterestViolation_def by simp

section \<open>Properties of the work registry\<close>

lemma find_work_None: "find_work P ws = None \<longleftrightarrow> (\<forall>w\<in>set ws. \<not> P w)"
  by (induction ws) auto

lemma find_work_Some: "find_work P ws = Some i \<Longrightarrow> i < length ws \<and> P (ws ! i)"
  by (induction ws arbitrary: i) (auto split: if_splits)

lemma SetWorkDone_absent: "h \<notin> blockEthash ` set ws \<Longrightarrow> SetWorkDone ws h = ws"
  unfolding SetWorkDone_def by (induction ws) (auto simp: EthashEquals_def)

lemma UpdateWork_absent: "h \<notin> blockEthash ` set ws \<Longrightarrow> UpdateWork ws h n m = ws"
  unfolding UpdateWork_def by (induction ws) (auto simp: EthashEquals_def)

lemma GetWorkByHash_absent: "h \<notin> blockEthash ` set ws \<Longrightarrow> GetWorkByHash ws h = None"
  unfolding GetWorkByHash_def by (induction ws) (auto simp: EthashEquals_def)


subsection \<open>One entry per block hash\<close>

lemma sample_ethash_eq: "sample_ethash a = sample_ethash b \<longleftrightarrow> a = b"
  by (cases a, cases b) (simp add: sample_ethash_def int_encode_eq word_unat_eq_iff)

lemma inj_sample_ethash: "inj sample_ethash"
  by (rule injI) (simp add: sample_ethash_eq)

lemma entries_keyed_Nil: "entries_keyed GetEthash ToBoundary []"
  by (simp add: entries_keyed_def)

lemma entries_keyed_filter:
  "entries_keyed GetEthash ToBoundary works \<Longrightarrow> entries_keyed GetEthash ToBoundary (filter P works)"
  by (simp add: entries_keyed_def)

text \<open>A write that keeps the hash, the boundary and the base header of every entry.\<close>

lemma entries_keyed_map:
  assumes k: "entries_keyed GetEthash ToBoundary works"
    and f: "\<And>w. blockEthash (f w) = blockEthash w \<and> boundary (f w) = boundary w
               \<and> CBlockHeaderBase (work_block (f w)) = CBlockHeaderBase (work_block w)"
  shows "entries_keyed GetEthash ToBoundary (map f works)"
    and "map blockEthash (map f works) = map blockEthash works"
proof -
  have bits: "nBits (work_block (f w)) = nBits (work_block w)" for w
    using f[of w] by (simp add: CBlockHeaderBase_def)
  show "entries_keyed GetEthash ToBoundary (map f works)"
    using k f bits by (simp add: entries_keyed_def)
  show "map blockEthash (map f works) = map blockEthash works"
    using f by simp
qed

lemma entries_keyed_write:
  assumes k: "entries_keyed GetEthash ToBoundary works"
    and f: "\<And>w. blockEthash (f w) = blockEthash w \<and> boundary (f w) = boundary w
               \<and> CBlockHeaderBase (work_block (f w)) = CBlockHeaderBase (work_block w)"
  shows "entries_keyed GetEthash ToBoundary (write_entry works i f)"
    and "map blockEthash (write_entry works i f) = map blockEthash works"
proof -
  have bits: "nBits (work_block (f w)) = nBits (work_block w)" for w
    using f[of w] by (simp add: CBlockHeaderBase_def)
  show "map blockEthash (write_entry works i f) = map blockEthash works"
    unfolding write_entry_def using f by (simp add: map_update list_update_same_conv)
  show "entries_keyed GetEthash ToBoundary (write_entry works i f)"
  proof (cases "i < length works")
    case False
    then show ?thesis using k by (simp add: write_entry_def)
  next
    case True
    then have "works ! i \<in> set works" by simp
    with k have wi: "blockEthash (works ! i) = GetEthash (CBlockHeaderBase (work_block (works ! i)))"
      "boundary (works ! i) = ToBoundary (nBits (work_block (works ! i)))"
      unfolding entries_keyed_def by blast+
    have "set (works[i := f (works ! i)]) \<subseteq> insert (f (works ! i)) (set works)"
      by (rule set_update_subset_insert)
    then show ?thesis
      unfolding write_entry_def entries_keyed_def using True k wi f[of "works ! i"] bits[of "works ! i"]
      by (auto simp: entries_keyed_def)
  qed
qed

text \<open>
  \<^verbatim>\<open>AddWork\<close> on the pair of \<^verbatim>\<open>GenNewWork\<close>: with an Ethash free of collisions, an
  entry with the hash of the new block has the boundary of the new block too, so the
  guard finds it.
\<close>

lemma AddWork_GenNewWork:
  assumes inj: "inj GetEthash" and k: "entries_keyed GetEthash ToBoundary works"
  shows "registry_call GetEthash ToBoundary works (CallAddWork pblock)
         = (if GetEthash (CBlockHeaderBase pblock) \<in> blockEthash ` set works then works
            else works @ [GenNewWork GetEthash ToBoundary pblock])"
proof -
  define h where "h = GetEthash (CBlockHeaderBase pblock)"
  define bnd where "bnd = ToBoundary (nBits pblock)"
  define P :: "Work \<Rightarrow> bool"
    where "P = (\<lambda>it. EthashEquals (blockEthash it) h \<and> EthashEquals bnd (boundary it))"
  have same: "P w \<longleftrightarrow> blockEthash w = h" if "w \<in> set works" for w
  proof
    assume "P w" then show "blockEthash w = h" by (simp add: P_def EthashEquals_def)
  next
    assume e: "blockEthash w = h"
    from k that have kw: "blockEthash w = GetEthash (CBlockHeaderBase (work_block w))"
      "boundary w = ToBoundary (nBits (work_block w))"
      unfolding entries_keyed_def by blast+
    from e kw(1) have "GetEthash (CBlockHeaderBase (work_block w)) = GetEthash (CBlockHeaderBase pblock)"
      by (simp add: h_def)
    with inj have "CBlockHeaderBase (work_block w) = CBlockHeaderBase pblock" by (rule injD)
    then have "nBits (work_block w) = nBits pblock" by (simp add: CBlockHeaderBase_def)
    with kw(2) have "boundary w = bnd" by (simp add: bnd_def)
    with e show "P w" by (simp add: P_def EthashEquals_def)
  qed
  have call: "registry_call GetEthash ToBoundary works (CallAddWork pblock)
      = (case find_work P works of Some i \<Rightarrow> works
         | None \<Rightarrow> works @ [GenNewWork GetEthash ToBoundary pblock])"
    by (simp add: AddWork_def GenNewWork_def Let_def P_def h_def bnd_def split: option.splits)
  show ?thesis
  proof (cases "find_work P works")
    case None
    then have "\<forall>w\<in>set works. \<not> P w" by (simp add: find_work_None)
    with same have "h \<notin> blockEthash ` set works" by blast
    then show ?thesis using None call by (simp add: h_def)
  next
    case (Some i)
    then have "i < length works" "P (works ! i)" using find_work_Some by blast+
    then have "works ! i \<in> set works" "blockEthash (works ! i) = h"
      by (simp_all add: P_def EthashEquals_def)
    then have "h \<in> blockEthash ` set works" by force
    then show ?thesis using Some call by (simp add: h_def)
  qed
qed

lemma registry_call_keeps:
  assumes inj: "inj GetEthash" and k: "entries_keyed GetEthash ToBoundary works"
    and d: "distinct (map blockEthash works)"
  shows "entries_keyed GetEthash ToBoundary (registry_call GetEthash ToBoundary works c)
       \<and> distinct (map blockEthash (registry_call GetEthash ToBoundary works c))"
proof (cases c)
  case (CallAddWork pblock)
  have "entries_keyed GetEthash ToBoundary [GenNewWork GetEthash ToBoundary pblock]"
    by (simp add: entries_keyed_def GenNewWork_def)
  then have "entries_keyed GetEthash ToBoundary (works @ [GenNewWork GetEthash ToBoundary pblock])"
    using k by (auto simp: entries_keyed_def)
  moreover have "blockEthash (GenNewWork GetEthash ToBoundary pblock)
                   = GetEthash (CBlockHeaderBase pblock)" by (simp add: GenNewWork_def)
  ultimately show ?thesis
    unfolding CallAddWork AddWork_GenNewWork[OF inj k] using k d by simp
next
  case (CallRemoveWork h)
  show ?thesis
    unfolding CallRemoveWork registry_call.simps RemoveWork_def
    using entries_keyed_filter[OF k] distinct_map_filter[OF d] by blast
next
  case (CallRemoveWorkByHeight height)
  show ?thesis
    unfolding CallRemoveWorkByHeight registry_call.simps RemoveWorkByHeight_def
    using entries_keyed_filter[OF k] distinct_map_filter[OF d] by blast
next
  case (CallSetWorkDone h)
  define f :: "Work \<Rightarrow> Work" where "f = (\<lambda>it. if EthashEquals (blockEthash it) h
              then it\<lparr> work_done := True \<rparr> else it)"
  have pf: "blockEthash (f w) = blockEthash w \<and> boundary (f w) = boundary w
               \<and> CBlockHeaderBase (work_block (f w)) = CBlockHeaderBase (work_block w)" for w
    by (simp add: f_def)
  note e = entries_keyed_map[OF k pf]
  have r: "registry_call GetEthash ToBoundary works c = map f works"
    by (simp add: CallSetWorkDone SetWorkDone_def f_def)
  have dd: "distinct (map blockEthash (map f works))" unfolding e(2) by (rule d)
  show ?thesis unfolding r using e(1) dd by blast
next
  case (CallUpdateWork h nonce mix)
  define f :: "Work \<Rightarrow> Work" where "f = (\<lambda>it. if EthashEquals (blockEthash it) h
               then it\<lparr> work_block := (work_block it)\<lparr> nNonce := nonce, hashMix := mix \<rparr> \<rparr>
               else it)"
  have pf: "blockEthash (f w) = blockEthash w \<and> boundary (f w) = boundary w
               \<and> CBlockHeaderBase (work_block (f w)) = CBlockHeaderBase (work_block w)" for w
    by (simp add: f_def CBlockHeaderBase_def)
  note e = entries_keyed_map[OF k pf]
  have r: "registry_call GetEthash ToBoundary works c = map f works"
    by (simp add: CallUpdateWork UpdateWork_def f_def)
  have dd: "distinct (map blockEthash (map f works))" unfolding e(2) by (rule d)
  show ?thesis unfolding r using e(1) dd by blast
next
  case CallCleanWork
  show ?thesis unfolding CallCleanWork by (simp add: CleanWork_def entries_keyed_Nil)
next
  case (WriteDeprecated i)
  define f :: "Work \<Rightarrow> Work" where "f = (\<lambda>w. w\<lparr> deprecated := True \<rparr>)"
  have pf: "blockEthash (f w) = blockEthash w \<and> boundary (f w) = boundary w
               \<and> CBlockHeaderBase (work_block (f w)) = CBlockHeaderBase (work_block w)" for w
    by (simp add: f_def)
  note e = entries_keyed_write[OF k pf, of i]
  have r: "registry_call GetEthash ToBoundary works c = write_entry works i f"
    by (simp add: WriteDeprecated f_def)
  have dd: "distinct (map blockEthash (write_entry works i f))" unfolding e(2) by (rule d)
  show ?thesis unfolding r using e(1) dd by blast
next
  case (WriteMiningThreads i n)
  define f :: "Work \<Rightarrow> Work" where "f = (\<lambda>w. w\<lparr> miningThreads := miningThreads w + n \<rparr>)"
  have pf: "blockEthash (f w) = blockEthash w \<and> boundary (f w) = boundary w
               \<and> CBlockHeaderBase (work_block (f w)) = CBlockHeaderBase (work_block w)" for w
    by (simp add: f_def)
  note e = entries_keyed_write[OF k pf, of i]
  have r: "registry_call GetEthash ToBoundary works c = write_entry works i f"
    by (simp add: WriteMiningThreads f_def)
  have dd: "distinct (map blockEthash (write_entry works i f))" unfolding e(2) by (rule d)
  show ?thesis unfolding r using e(1) dd by blast
next
  case (WriteSolved i nonce mix)
  define f :: "Work \<Rightarrow> Work" where "f = (\<lambda>w. w\<lparr> work_block := (work_block w)\<lparr> nNonce := nonce, hashMix := mix \<rparr>,
                work_done := True \<rparr>)"
  have pf: "blockEthash (f w) = blockEthash w \<and> boundary (f w) = boundary w
               \<and> CBlockHeaderBase (work_block (f w)) = CBlockHeaderBase (work_block w)" for w
    by (simp add: f_def CBlockHeaderBase_def)
  note e = entries_keyed_write[OF k pf, of i]
  have r: "registry_call GetEthash ToBoundary works c = write_entry works i f"
    by (simp add: WriteSolved f_def)
  have dd: "distinct (map blockEthash (write_entry works i f))" unfolding e(2) by (rule d)
  show ?thesis unfolding r using e(1) dd by blast
qed

lemma registry_after_keeps:
  assumes "inj GetEthash"
  shows "entries_keyed GetEthash ToBoundary (registry_after GetEthash ToBoundary calls)
       \<and> distinct (map blockEthash (registry_after GetEthash ToBoundary calls))"
proof (induction calls rule: rev_induct)
  case Nil
  show ?case by (simp add: registry_after_def entries_keyed_Nil)
next
  case (snoc c calls)
  have "registry_after GetEthash ToBoundary (calls @ [c])
          = registry_call GetEthash ToBoundary (registry_after GetEthash ToBoundary calls) c"
    by (simp add: registry_after_def)
  then show ?case using registry_call_keeps[OF assms] snoc.IH by simp
qed

text \<open>
  C5.  The registry starts empty and is written by \<^verbatim>\<open>AddWork\<close> on the pair of
  \<^verbatim>\<open>GenNewWork\<close>, by \<^verbatim>\<open>RemoveWork\<close> (by hash and by height), \<^verbatim>\<open>SetWorkDone\<close>,
  \<^verbatim>\<open>UpdateWork\<close>, \<^verbatim>\<open>CleanWork\<close> and through the entry pointers.  With an Ethash free of
  collisions, after every sequence of such calls the hashes of the entries are pairwise
  different, and \<^verbatim>\<open>AddWork\<close> on a block whose hash is in the registry leaves the
  registry as it is.
\<close>

theorem listWork_blockEthash_unique:
  assumes "inj GetEthash"
  shows "distinct (map blockEthash (registry_after GetEthash ToBoundary calls))
       \<and> (GetEthash (CBlockHeaderBase pblock)
             \<in> blockEthash ` set (registry_after GetEthash ToBoundary calls)
          \<longrightarrow> registry_after GetEthash ToBoundary (calls @ [CallAddWork pblock])
                = registry_after GetEthash ToBoundary calls)
       \<and> (GetEthash (CBlockHeaderBase pblock)
             \<notin> blockEthash ` set (registry_after GetEthash ToBoundary calls)
          \<longrightarrow> registry_after GetEthash ToBoundary (calls @ [CallAddWork pblock])
                = registry_after GetEthash ToBoundary calls
                  @ [GenNewWork GetEthash ToBoundary pblock])"
proof -
  have k: "entries_keyed GetEthash ToBoundary (registry_after GetEthash ToBoundary calls)"
    and d: "distinct (map blockEthash (registry_after GetEthash ToBoundary calls))"
    using registry_after_keeps[OF assms] by blast+
  have "registry_after GetEthash ToBoundary (calls @ [CallAddWork pblock])
          = registry_call GetEthash ToBoundary (registry_after GetEthash ToBoundary calls)
              (CallAddWork pblock)"
    by (simp add: registry_after_def)
  then show ?thesis using d unfolding AddWork_GenNewWork[OF assms k] by simp
qed

theorem listWork_blockEthash_unique_witness:
  "inj sample_ethash
   \<and> registry_after sample_ethash unat
        [CallAddWork (sample_block 2 []), CallAddWork (sample_block 3 []),
         CallSetWorkDone (sample_ethash (CBlockHeaderBase (sample_block 2 [])))]
      = [(GenNewWork sample_ethash unat (sample_block 2 []))\<lparr> work_done := True \<rparr>,
         GenNewWork sample_ethash unat (sample_block 3 [])]
   \<and> sample_ethash (CBlockHeaderBase (sample_block 2 []))
        \<in> blockEthash ` set (registry_after sample_ethash unat
             [CallAddWork (sample_block 2 []), CallAddWork (sample_block 3 []),
              CallSetWorkDone (sample_ethash (CBlockHeaderBase (sample_block 2 [])))])
   \<and> registry_after sample_ethash unat
        ([CallAddWork (sample_block 2 []), CallAddWork (sample_block 3 []),
          CallSetWorkDone (sample_ethash (CBlockHeaderBase (sample_block 2 [])))]
         @ [CallAddWork (sample_block 2 [])])
      = registry_after sample_ethash unat
          [CallAddWork (sample_block 2 []), CallAddWork (sample_block 3 []),
           CallSetWorkDone (sample_ethash (CBlockHeaderBase (sample_block 2 [])))]
   \<and> distinct (map blockEthash (registry_after sample_ethash unat
        [CallAddWork (sample_block 2 []), CallAddWork (sample_block 3 []),
         CallSetWorkDone (sample_ethash (CBlockHeaderBase (sample_block 2 [])))]))"
proof -
  define calls where "calls = [CallAddWork (sample_block 2 []), CallAddWork (sample_block 3 []),
         CallSetWorkDone (sample_ethash (CBlockHeaderBase (sample_block 2 [])))]"
  have ne: "CBlockHeaderBase (sample_block 3 []) \<noteq> CBlockHeaderBase (sample_block 2 [])"
    by (simp add: CBlockHeaderBase_def sample_block_def)
  have r: "registry_after sample_ethash unat calls
      = [(GenNewWork sample_ethash unat (sample_block 2 []))\<lparr> work_done := True \<rparr>,
         GenNewWork sample_ethash unat (sample_block 3 [])]"
    using ne
    by (simp add: calls_def registry_after_def AddWork_def GenNewWork_def SetWorkDone_def
        EthashEquals_def Let_def sample_ethash_eq)
  have m: "sample_ethash (CBlockHeaderBase (sample_block 2 []))
        \<in> blockEthash ` set (registry_after sample_ethash unat calls)"
    unfolding r by (simp add: GenNewWork_def)
  note t = listWork_blockEthash_unique[OF inj_sample_ethash, of unat calls "sample_block 2 []"]
  from t m have a: "registry_after sample_ethash unat (calls @ [CallAddWork (sample_block 2 [])])
      = registry_after sample_ethash unat calls" by blast
  from t have d: "distinct (map blockEthash (registry_after sample_ethash unat calls))" by blast
  from inj_sample_ethash r m a d show ?thesis unfolding calls_def by blast
qed

text \<open>
  C9.  When the block's \<^verbatim>\<open>hashPrevBlock\<close> is not the hash of the tip,
  \<^verbatim>\<open>ProcessBlockFound\<close> changes nothing (so nothing is handed to
  \<^verbatim>\<open>ProcessNewBlock\<close>) and does not return true; it returns false whenever the log
  line at its entry could print the coinbase value, which is the case for every block
  that has a coinbase with outputs in the money range.  A block is handed to
  \<^verbatim>\<open>ProcessNewBlock\<close> only when \<^verbatim>\<open>hashPrevBlock\<close> is the hash of the tip, and the
  result is true only if \<^verbatim>\<open>ProcessNewBlock\<close> accepted the block.
\<close>

theorem ProcessBlockFound_stale_or_accepted:
  "(hashPrevBlock pblock \<noteq> TipBlockHash V (chain s) \<longrightarrow>
      snd (ProcessBlockFound V s pblock) = s
      \<and> fst (ProcessBlockFound V s pblock) \<noteq> Inr True
      \<and> ((\<exists>coinbase rest generated. vtx pblock = coinbase # rest
             \<and> GetValueOut (MAX_MONEY V) coinbase = Inr generated)
          \<longrightarrow> fst (ProcessBlockFound V s pblock) = Inr False))
   \<and> (submitted (snd (ProcessBlockFound V s pblock)) \<noteq> submitted s \<longrightarrow>
        hashPrevBlock pblock = TipBlockHash V (chain s)
        \<and> submitted (snd (ProcessBlockFound V s pblock)) = submitted s @ [pblock])
   \<and> (fst (ProcessBlockFound V s pblock) = Inr True \<longrightarrow>
        hashPrevBlock pblock = TipBlockHash V (chain s)
        \<and> fst (ProcessNewBlock V (chain s) pblock)
        \<and> submitted (snd (ProcessBlockFound V s pblock)) = submitted s @ [pblock])"
  by (auto simp: ProcessBlockFound_def Let_def split: list.splits sum.splits)


theorem ProcessBlockFound_stale_or_accepted_witness:
  "hashPrevBlock (sample_block 1 [sample_tx 5]) \<noteq> TipBlockHash sample_validation (chain sample_worker)
   \<and> ProcessBlockFound sample_validation sample_worker (sample_block 1 [sample_tx 5])
       = (Inr False, sample_worker)
   \<and> hashPrevBlock (sample_block 2 [sample_tx 5]) = TipBlockHash sample_validation (chain sample_worker)
   \<and> fst (ProcessBlockFound sample_validation sample_worker (sample_block 2 [sample_tx 5])) = Inr True
   \<and> submitted (snd (ProcessBlockFound sample_validation sample_worker (sample_block 2 [sample_tx 5])))
       = [sample_block 2 [sample_tx 5]]"
proof -
  have v: "GetValueOut (MAX_MONEY sample_validation) (sample_tx 5) = Inr 5"
    by (simp add: GetValueOut_def sample_tx_def sample_validation_def MoneyRange_def)
  have stale: "hashPrevBlock (sample_block 1 [sample_tx 5])
                 \<noteq> TipBlockHash sample_validation (chain sample_worker)"
    by (simp add: sample_block_def sample_validation_def sample_worker_def)
  have fresh: "hashPrevBlock (sample_block 2 [sample_tx 5])
                 = TipBlockHash sample_validation (chain sample_worker)"
    by (simp add: sample_block_def sample_validation_def sample_worker_def)
  have ex: "\<exists>coinbase rest generated. vtx (sample_block 1 [sample_tx 5]) = coinbase # rest
             \<and> GetValueOut (MAX_MONEY sample_validation) coinbase = Inr generated"
    using v by (simp add: sample_block_def)
  have acc: "fst (ProcessBlockFound sample_validation sample_worker (sample_block 2 [sample_tx 5]))
               = Inr True"
    using v fresh
    by (simp add: ProcessBlockFound_def Let_def sample_block_def sample_validation_def
        sample_worker_def)
  note s = ProcessBlockFound_stale_or_accepted[of "sample_block 1 [sample_tx 5]"
      sample_validation sample_worker]
  note f = ProcessBlockFound_stale_or_accepted[of "sample_block 2 [sample_tx 5]"
      sample_validation sample_worker]
  have s1: "snd (ProcessBlockFound sample_validation sample_worker (sample_block 1 [sample_tx 5]))
              = sample_worker"
    using s stale by blast
  have s2: "fst (ProcessBlockFound sample_validation sample_worker (sample_block 1 [sample_tx 5]))
              = Inr False"
    using s stale ex by blast
  have f1: "submitted (snd (ProcessBlockFound sample_validation sample_worker
              (sample_block 2 [sample_tx 5]))) = submitted sample_worker @ [sample_block 2 [sample_tx 5]]"
    using f acc by blast
  have e: "submitted sample_worker = []" by (simp add: sample_worker_def)
  from s1 s2 have "ProcessBlockFound sample_validation sample_worker (sample_block 1 [sample_tx 5])
       = (Inr False, sample_worker)"
    by (simp add: prod_eq_iff)
  with stale fresh acc f1 e show ?thesis by simp
qed

text \<open>
  C10.  For a \<^verbatim>\<open>blockEthash\<close> that no registry entry carries, \<^verbatim>\<open>SubmitWork\<close> returns
  false and leaves the whole state as it was: no entry's \<^verbatim>\<open>done\<close> flag, nonce or mix
  hash changes, and nothing is handed to \<^verbatim>\<open>ProcessBlockFound\<close> or
  \<^verbatim>\<open>ProcessNewBlock\<close>.
\<close>

theorem SubmitWork_unknown_hash:
  assumes "h \<notin> blockEthash ` set (listWork s)"
  shows "SubmitWork V s h nonce mix = (Inr False, s)"
  using assms
  by (simp add: SubmitWork_def SetWorkDone_absent UpdateWork_absent GetWorkByHash_absent)


theorem SubmitWork_unknown_hash_witness:
  "8 \<notin> blockEthash ` set (listWork
           (sample_worker\<lparr> listWork := fst (AddWork (\<lambda>b. 7) [] (sample_block 2 [sample_tx 5]) 5) \<rparr>))
   \<and> SubmitWork sample_validation
        (sample_worker\<lparr> listWork := fst (AddWork (\<lambda>b. 7) [] (sample_block 2 [sample_tx 5]) 5) \<rparr>)
        8 1 1
      = (Inr False,
         sample_worker\<lparr> listWork := fst (AddWork (\<lambda>b. 7) [] (sample_block 2 [sample_tx 5]) 5) \<rparr>)"
proof -
  have a: "8 \<notin> blockEthash ` set (listWork
           (sample_worker\<lparr> listWork := fst (AddWork (\<lambda>b. 7) [] (sample_block 2 [sample_tx 5]) 5) \<rparr>))"
    by (simp add: AddWork_def)
  from SubmitWork_unknown_hash[OF a] a show ?thesis by simp
qed

section \<open>The block assembler: what \<^verbatim>\<open>CreateNewBlock\<close> returns\<close>

subsection \<open>The assembled list and the order of parents\<close>

lemma assembled_AddToBlock:
  assumes "assembled mp ba its" "it \<notin> inBlock ba"
  shows "assembled mp (AddToBlock ba mp it) (its @ [it])"
  using assms unfolding assembled_def AddToBlock_def Let_def by auto

lemma assembled_foldl_AddToBlock:
  assumes "assembled mp ba its" "distinct xs" "set xs \<inter> inBlock ba = {}"
  shows "assembled mp (foldl (\<lambda>b e. AddToBlock b mp e) ba xs) (its @ xs)"
  using assms
proof (induction xs arbitrary: ba its)
  case Nil
  then show ?case by simp
next
  case (Cons x xs)
  have x: "x \<notin> inBlock ba" using Cons.prems(3) by simp
  have a: "assembled mp (AddToBlock ba mp x) (its @ [x])"
    using Cons.prems(1) x by (rule assembled_AddToBlock)
  have d: "distinct xs" using Cons.prems(2) by simp
  have "set xs \<inter> inBlock (AddToBlock ba mp x) = {}"
    using Cons.prems(2,3) by (auto simp: inBlock_AddToBlock)
  from Cons.IH[OF a d this] show ?case by simp
qed

lemma inBlock_TestForBlock: "inBlock (snd (TestForBlock env ba mp it)) = inBlock ba"
  unfolding TestForBlock_def Let_def by simp

lemma assembled_TestForBlock:
  "assembled mp (snd (TestForBlock env ba mp it)) its \<longleftrightarrow> assembled mp ba its"
  unfolding assembled_def TestForBlock_def Let_def by simp

lemma nHeight_AddToBlock [simp]: "nHeight (AddToBlock ba mp it) = nHeight ba"
  by (simp add: AddToBlock_def Let_def)

lemma nHeight_foldl_AddToBlock [simp]:
  "nHeight (foldl (\<lambda>b e. AddToBlock b mp e) ba xs) = nHeight ba"
  by (induction xs arbitrary: ba) simp_all

lemma nHeight_TestForBlock [simp]: "nHeight (snd (TestForBlock env ba mp it)) = nHeight ba"
  unfolding TestForBlock_def Let_def by simp

lemma parents_first_append:
  assumes "parents_first mp its"
    and "\<forall>j<length xs. set (GetMemPoolParents mp (xs ! j)) \<subseteq> set its \<union> set (take j xs)"
  shows "parents_first mp (its @ xs)"
  unfolding parents_first_def
proof (intro allI impI)
  fix j assume j: "j < length (its @ xs)"
  show "set (GetMemPoolParents mp ((its @ xs) ! j)) \<subseteq> set (take j (its @ xs))"
  proof (cases "j < length its")
    case True
    then show ?thesis using assms(1) by (auto simp: parents_first_def nth_append)
  next
    case False
    then have k: "j - length its < length xs" using j by auto
    from assms(2) k have "set (GetMemPoolParents mp (xs ! (j - length its)))
                            \<subseteq> set its \<union> set (take (j - length its) xs)" by blast
    then show ?thesis using False by (auto simp: nth_append)
  qed
qed

lemma parents_first_ancestors:
  assumes pf: "parents_first mp its" and k: "k < length its"
    and a: "(its ! k, a) \<in> (parentRel mp)\<^sup>+"
  shows "a \<in> set (take k its)"
  using a
proof (induction rule: trancl_induct)
  case (base y)
  then have "y \<in> set (GetMemPoolParents mp (its ! k))" by (auto simp: parentRel_def)
  then show ?case using pf k by (auto simp: parents_first_def)
next
  case (step y z)
  from step.IH obtain m where m: "m < k" "its ! m = y"
    using k by (auto simp: in_set_conv_nth)
  from step.hyps(2) have "z \<in> set (GetMemPoolParents mp y)" by (auto simp: parentRel_def)
  moreover have ml: "m < length its" using m(1) k by simp
  moreover have "set (GetMemPoolParents mp (its ! m)) \<subseteq> set (take m its)"
    using pf ml unfolding parents_first_def by blast
  ultimately have "z \<in> set (take m its)" using m(2) by blast
  moreover have "set (take m its) \<subseteq> set (take k its)"
    using m(1) by (intro set_take_subset_set_take) simp
  ultimately show ?case by blast
qed

subsection \<open>One pass of the priority loop\<close>

lemma requeue_child_sets:
  "snd ` set (fst (requeue_child st c)) \<union> fst ` set (snd (requeue_child st c))
     \<subseteq> snd ` set (fst st) \<union> fst ` set (snd st)"
proof (cases "map_of (snd st) c")
  case None
  then show ?thesis by (simp add: requeue_child_def)
next
  case (Some p)
  then have "(c, p) \<in> set (snd st)" by (rule map_of_SomeD)
  then have "c \<in> fst ` set (snd st)" by force
  then show ?thesis using Some by (auto simp: requeue_child_def)
qed

lemma foldl_requeue_child_sets:
  "snd ` set (fst (foldl requeue_child st cs)) \<union> fst ` set (snd (foldl requeue_child st cs))
     \<subseteq> snd ` set (fst st) \<union> fst ` set (snd st)"
proof (induction cs arbitrary: st)
  case Nil
  then show ?case by simp
next
  case (Cons c cs)
  have "snd ` set (fst (foldl requeue_child (requeue_child st c) cs))
          \<union> fst ` set (snd (foldl requeue_child (requeue_child st c) cs))
        \<subseteq> snd ` set (fst (requeue_child st c)) \<union> fst ` set (snd (requeue_child st c))"
    by (rule Cons.IH)
  also note requeue_child_sets
  finally show ?case by simp
qed

lemma addPriorityTxs_step_Cons:
  assumes Cons: "vecPriority s = x # xs"
  shows "addPriorityTxs_step env mp n s =
     (let top = heap_front (pricomparer env) x xs; vec = remove1 top (vecPriority s);
          r = TestForBlock env (pri_ba s) mp (snd top); ba = AddToBlock (snd r) mp (snd top);
          q = foldl requeue_child (vec, waitPriMap s) (GetMemPoolChildren mp (snd top));
          w = waitPriMap_insert (waitPriMap s) (snd top) (fst top) in
     (if blockFinished (pri_ba s) then Break s
      else if snd top \<in> inBlock (pri_ba s) then Abort AssertionFailed
      else if isStillDependent (pri_ba s) mp (snd top)
      then Continue (s\<lparr> vecPriority := vec, waitPriMap := w \<rparr>)
      else if \<not> fst r then Continue (s\<lparr> pri_ba := snd r, vecPriority := vec \<rparr>)
      else if nBlockSize ba \<ge> n \<or> \<not> AllowFree env (fst top)
      then Break (s\<lparr> pri_ba := ba, vecPriority := vec \<rparr>)
      else Continue (s\<lparr> pri_ba := ba, vecPriority := fst q, waitPriMap := snd q \<rparr>)))"
  unfolding addPriorityTxs_step_def Cons list.case Let_def
  by (simp only: if_cancel split: if_splits)

lemma addPriorityTxs_step_cases:
  assumes "addPriorityTxs_step env mp n s = Continue s' \<or> addPriorityTxs_step env mp n s = Break s'"
  obtains (same) "s' = s"
  | (wait) top where "top \<in> set (vecPriority s)" "pri_ba s' = pri_ba s"
      "set (vecPriority s') \<subseteq> set (vecPriority s)"
      "fst ` set (waitPriMap s') \<subseteq> insert (snd top) (fst ` set (waitPriMap s))"
  | (reject) top where "top \<in> set (vecPriority s)"
      "pri_ba s' = snd (TestForBlock env (pri_ba s) mp (snd top))"
      "set (vecPriority s') \<subseteq> set (vecPriority s)" "waitPriMap s' = waitPriMap s"
  | (add) top where "top \<in> set (vecPriority s)"
      "snd top \<notin> inBlock (pri_ba s)"
      "\<not> isStillDependent (pri_ba s) mp (snd top)"
      "pri_ba s' = AddToBlock (snd (TestForBlock env (pri_ba s) mp (snd top))) mp (snd top)"
      "snd ` set (vecPriority s') \<union> fst ` set (waitPriMap s')
         \<subseteq> snd ` set (vecPriority s) \<union> fst ` set (waitPriMap s)"
proof (cases "vecPriority s")
  case Nil
  with assms have "s' = s" by (simp add: addPriorityTxs_step_def)
  then show ?thesis by (rule same)
next
  case (Cons x xs)
  define top where "top = heap_front (pricomparer env) x xs"
  define vec where "vec = remove1 top (vecPriority s)"
  define r where "r = TestForBlock env (pri_ba s) mp (snd top)"
  define ba where "ba = AddToBlock (snd r) mp (snd top)"
  define q where "q = foldl requeue_child (vec, waitPriMap s) (GetMemPoolChildren mp (snd top))"
  define w where "w = waitPriMap_insert (waitPriMap s) (snd top) (fst top)"
  have top: "top \<in> set (vecPriority s)"
    using heap_front_in_set[of "pricomparer env" x xs] Cons by (simp add: top_def)
  have vsub: "set vec \<subseteq> set (vecPriority s)" unfolding vec_def by (rule set_remove1_subset)
  have wsub: "fst ` set w \<subseteq> insert (snd top) (fst ` set (waitPriMap s))"
    by (auto simp: w_def waitPriMap_insert_def)
  have q: "snd ` set (fst q) \<union> fst ` set (snd q) \<subseteq> snd ` set vec \<union> fst ` set (waitPriMap s)"
    using foldl_requeue_child_sets[of "(vec, waitPriMap s)"] by (simp add: q_def)
  have step_eq: "addPriorityTxs_step env mp n s =
     (if blockFinished (pri_ba s) then Break s
      else if snd top \<in> inBlock (pri_ba s) then Abort AssertionFailed
      else if isStillDependent (pri_ba s) mp (snd top)
      then Continue (s\<lparr> vecPriority := vec, waitPriMap := w \<rparr>)
      else if \<not> fst r then Continue (s\<lparr> pri_ba := snd r, vecPriority := vec \<rparr>)
      else if nBlockSize ba \<ge> n \<or> \<not> AllowFree env (fst top)
      then Break (s\<lparr> pri_ba := ba, vecPriority := vec \<rparr>)
      else Continue (s\<lparr> pri_ba := ba, vecPriority := fst q, waitPriMap := snd q \<rparr>))"
    using addPriorityTxs_step_Cons[OF Cons, of env mp n]
    unfolding Let_def top_def vec_def r_def ba_def q_def w_def .
  note assms' = assms[unfolded step_eq]
  show ?thesis
  proof (cases "blockFinished (pri_ba s)")
    case True
    with assms' have "s' = s" by simp
    then show ?thesis by (rule same)
  next
    case nf: False
    show ?thesis
    proof (cases "snd top \<in> inBlock (pri_ba s)")
      case True
      with assms' nf show ?thesis by simp
    next
      case nin: False
      show ?thesis
      proof (cases "isStillDependent (pri_ba s) mp (snd top)")
        case True
        with assms' nf nin have b: "s' = s\<lparr> vecPriority := vec, waitPriMap := w \<rparr>" by simp
        show ?thesis
          by (rule wait[of top]) (use top vsub wsub in \<open>simp_all add: b\<close>)
      next
        case nd: False
        show ?thesis
        proof (cases "fst r")
          case False
          with assms' nf nin nd have c: "s' = s\<lparr> pri_ba := snd r, vecPriority := vec \<rparr>" by simp
          show ?thesis
            by (rule reject[of top]) (use top vsub in \<open>simp_all add: c r_def\<close>)
        next
          case tr: True
          have v: "snd ` set vec \<subseteq> snd ` set (vecPriority s)" using vsub by blast
          show ?thesis
          proof (cases "nBlockSize ba \<ge> n \<or> \<not> AllowFree env (fst top)")
            case True
            with assms' nf nin nd tr have d: "s' = s\<lparr> pri_ba := ba, vecPriority := vec \<rparr>"
              by simp
            have "snd ` set (vecPriority s') \<union> fst ` set (waitPriMap s')
                    \<subseteq> snd ` set (vecPriority s) \<union> fst ` set (waitPriMap s)"
              using v by (auto simp: d)
            then show ?thesis
              by (intro add[of top]) (use top nd nin in \<open>simp_all add: d ba_def r_def\<close>)
          next
            case False
            with assms' nf nin nd tr
            have e: "s' = s\<lparr> pri_ba := ba, vecPriority := fst q, waitPriMap := snd q \<rparr>"
              by simp
            have "snd ` set (fst q) \<union> fst ` set (snd q)
                    \<subseteq> snd ` set (vecPriority s) \<union> fst ` set (waitPriMap s)"
              using v q by blast
            then have "snd ` set (vecPriority s') \<union> fst ` set (waitPriMap s')
                    \<subseteq> snd ` set (vecPriority s) \<union> fst ` set (waitPriMap s)"
              by (simp add: e)
            then show ?thesis
              by (intro add[of top]) (use top nd nin in \<open>simp_all add: e ba_def r_def\<close>)
          qed
        qed
      qed
    qed
  qed
qed

lemma pri_invI:
  assumes "assembled mp (pri_ba s) its" "parents_first mp its" "set its \<subseteq> set (mapTx mp)"
    "snd ` set (vecPriority s) \<subseteq> set (mapTx mp)" "fst ` set (waitPriMap s) \<subseteq> set (mapTx mp)"
  shows "pri_inv mp s"
  unfolding pri_inv_def using assms by blast

lemma pri_inv_step:
  assumes inv: "pri_inv mp s"
    and st: "addPriorityTxs_step env mp n s = Continue s' \<or> addPriorityTxs_step env mp n s = Break s'"
  shows "pri_inv mp s'"
proof -
  from inv obtain its where its: "assembled mp (pri_ba s) its" "parents_first mp its"
      "set its \<subseteq> set (mapTx mp)"
    and hv: "snd ` set (vecPriority s) \<subseteq> set (mapTx mp)"
    and hw: "fst ` set (waitPriMap s) \<subseteq> set (mapTx mp)"
    unfolding pri_inv_def by blast
  from st show ?thesis
  proof (cases rule: addPriorityTxs_step_cases)
    case same
    then show ?thesis using inv by simp
  next
    case (wait top)
    have "snd top \<in> snd ` set (vecPriority s)" using wait(1) by (rule imageI)
    then have mem: "snd top \<in> set (mapTx mp)" using hv by blast
    have v: "snd ` set (vecPriority s') \<subseteq> set (mapTx mp)"
      by (rule subset_trans[OF image_mono[OF wait(3)] hv])
    have w: "fst ` set (waitPriMap s') \<subseteq> set (mapTx mp)"
      by (rule subset_trans[OF wait(4)]) (use hw mem in simp)
    have "assembled mp (pri_ba s') its" using its(1) by (simp only: wait(2))
    then show ?thesis using its(2,3) v w by (rule pri_invI)
  next
    case (reject top)
    have v: "snd ` set (vecPriority s') \<subseteq> set (mapTx mp)"
      by (rule subset_trans[OF image_mono[OF reject(3)] hv])
    have w: "fst ` set (waitPriMap s') \<subseteq> set (mapTx mp)"
      using hw by (simp only: reject(4))
    have "assembled mp (pri_ba s') its"
      using its(1) by (simp only: reject(2) assembled_TestForBlock)
    then show ?thesis using its(2,3) v w by (rule pri_invI)
  next
    case (add top)
    define it where "it = snd top"
    have "it \<in> snd ` set (vecPriority s)" unfolding it_def using add(1) by (rule imageI)
    then have mem: "it \<in> set (mapTx mp)" using hv by blast
    have a0: "assembled mp (snd (TestForBlock env (pri_ba s) mp it)) its"
      using its(1) by (simp only: assembled_TestForBlock)
    have "it \<notin> inBlock (snd (TestForBlock env (pri_ba s) mp it))"
      unfolding it_def inBlock_TestForBlock by (rule add(2))
    with a0 have a1: "assembled mp (pri_ba s') (its @ [it])"
      unfolding add(4) it_def[symmetric] by (rule assembled_AddToBlock)
    have "set (GetMemPoolParents mp it) \<subseteq> inBlock (pri_ba s)"
      using add(3) unfolding it_def[symmetric] isStillDependent_def by blast
    moreover have "inBlock (pri_ba s) = set its" using its(1) unfolding assembled_def by blast
    ultimately have ps: "set (GetMemPoolParents mp it) \<subseteq> set its" by simp
    have "\<forall>j<length [it]. set (GetMemPoolParents mp ([it] ! j)) \<subseteq> set its \<union> set (take j [it])"
      using ps by simp
    with its(2) have a2: "parents_first mp (its @ [it])" by (rule parents_first_append)
    have a3: "set (its @ [it]) \<subseteq> set (mapTx mp)" using its(3) mem by simp
    have "snd ` set (vecPriority s') \<union> fst ` set (waitPriMap s') \<subseteq> set (mapTx mp)"
      by (rule subset_trans[OF add(5)]) (use hv hw in simp)
    then have v: "snd ` set (vecPriority s') \<subseteq> set (mapTx mp)"
      and w: "fst ` set (waitPriMap s') \<subseteq> set (mapTx mp)"
      by simp_all
    from a1 a2 a3 v w show ?thesis by (rule pri_invI)
  qed
qed

lemma pri_inv_loop:
  assumes "addPriorityTxs_loop env mp n s = Inr s'" "pri_inv mp s"
  shows "pri_inv mp s'"
  using assms
proof (induction env mp n s rule: addPriorityTxs_loop.induct)
  case (1 env mp n s)
  show ?case
  proof (cases "addPriorityTxs_step env mp n s")
    case (Continue s1)
    then have "pri_inv mp s1" using pri_inv_step[OF "1.prems"(2)] by blast
    moreover have "addPriorityTxs_loop env mp n s1 = Inr s'"
      using "1.prems"(1) Continue by (simp add: addPriorityTxs_loop.simps[of env mp n s])
    ultimately show ?thesis using "1.IH"[OF Continue] by blast
  next
    case (Break s1)
    then have "pri_inv mp s1" using pri_inv_step[OF "1.prems"(2)] by blast
    moreover have "s1 = s'"
      using "1.prems"(1) Break by (simp add: addPriorityTxs_loop.simps[of env mp n s])
    ultimately show ?thesis by simp
  next
    case (Abort e)
    then show ?thesis
      using "1.prems"(1) by (simp add: addPriorityTxs_loop.simps[of env mp n s])
  qed
qed

subsection \<open>A package sorted by ancestor count\<close>

lemma sorted_key_index_less:
  assumes "sorted (map f xs)" "i < length xs" "j < length xs" "f (xs ! i) < (f (xs ! j) :: 'b :: linorder)"
  shows "i < j"
proof (rule ccontr)
  assume "\<not> i < j"
  then have "j \<le> i" by simp
  then have "map f xs ! j \<le> map f xs ! i"
    using assms(1,2) by (intro sorted_nth_mono) simp_all
  then show False using assms(2,3,4) by simp
qed

lemma sorted_SortForBlock:
  "sorted (map (\<lambda>it. eCountWithAncestors (deref mp it)) (SortForBlock mp A))"
  unfolding SortForBlock_def by (rule sorted_sort_key)

lemma parentRel_iff:
  "(c, p) \<in> parentRel mp \<longleftrightarrow> c \<in> set (mapTx mp) \<and> p \<in> set (GetMemPoolParents mp c)"
  unfolding parentRel_def by auto

lemma childRel_iff:
  "(p, c) \<in> childRel mp \<longleftrightarrow> p \<in> set (mapTx mp) \<and> c \<in> set (GetMemPoolChildren mp p)"
  unfolding childRel_def by auto

lemma consistent_parent_in_pool:
  assumes "mempool_consistent mp" "(c, p) \<in> parentRel mp"
  shows "p \<in> set (mapTx mp)"
  using assms unfolding mempool_consistent_def parentRel_iff by blast

lemma consistent_ancestor_in_pool:
  assumes mc: "mempool_consistent mp" and a: "(c, a) \<in> (parentRel mp)\<^sup>+"
  shows "a \<in> set (mapTx mp)"
  using a by (induction rule: trancl_induct) (auto intro: consistent_parent_in_pool[OF mc])

lemma consistent_Range_childRel:
  assumes "mempool_consistent mp"
  shows "Range (childRel mp) \<subseteq> set (mapTx mp)"
proof
  fix c assume "c \<in> Range (childRel mp)"
  then obtain p where "(p, c) \<in> childRel mp" by blast
  then have p: "p \<in> set (mapTx mp)" and c: "c \<in> set (GetMemPoolChildren mp p)"
    by (simp_all add: childRel_iff)
  from assms p have "set (GetMemPoolChildren mp p) \<subseteq> set (mapTx mp)"
    unfolding mempool_consistent_def by blast
  with c show "c \<in> set (mapTx mp)" by blast
qed

lemma CalculateMemPoolAncestors_iff:
  "a \<in> CalculateMemPoolAncestors mp it \<longleftrightarrow> (it, a) \<in> (parentRel mp)\<^sup>+"
  unfolding CalculateMemPoolAncestors_def by force

lemma sorted_package_parents:
  assumes mc: "mempool_consistent mp" and itr: "itr \<in> set (mapTx mp)"
    and ib: "inBlock ba = set its"
    and j: "j < length (SortForBlock mp (insert itr (onlyUnconfirmed ba (CalculateMemPoolAncestors mp itr))))"
  shows "set (GetMemPoolParents mp
            (SortForBlock mp (insert itr (onlyUnconfirmed ba (CalculateMemPoolAncestors mp itr))) ! j))
         \<subseteq> set its \<union> set (take j
            (SortForBlock mp (insert itr (onlyUnconfirmed ba (CalculateMemPoolAncestors mp itr)))))"
proof
  define anc where "anc = insert itr (onlyUnconfirmed ba (CalculateMemPoolAncestors mp itr))"
  define xs where "xs = SortForBlock mp anc"
  define e where "e = xs ! j"
  fix p
  assume "p \<in> set (GetMemPoolParents mp
            (SortForBlock mp (insert itr (onlyUnconfirmed ba (CalculateMemPoolAncestors mp itr))) ! j))"
  then have p: "p \<in> set (GetMemPoolParents mp e)" by (simp add: e_def xs_def anc_def)
  have jl: "j < length xs" using j by (simp add: xs_def anc_def)
  have fin: "finite anc"
    using finite_CalculateMemPoolAncestors[of mp itr] by (simp add: anc_def onlyUnconfirmed_def)
  have sx: "set xs = anc" unfolding xs_def using fin by (rule set_SortForBlock)
  have "e \<in> set xs" unfolding e_def using jl by (rule nth_mem)
  then have ea: "e \<in> anc" using sx by simp
  have e_cases: "e = itr \<or> (itr, e) \<in> (parentRel mp)\<^sup>+"
    using ea by (auto simp: anc_def onlyUnconfirmed_def CalculateMemPoolAncestors_iff)
  then have epool: "e \<in> set (mapTx mp)"
    using itr consistent_ancestor_in_pool[OF mc] by blast
  then have ep: "(e, p) \<in> parentRel mp" using p by (simp add: parentRel_iff)
  have "(itr, p) \<in> (parentRel mp)\<^sup>+"
    using e_cases ep by (auto intro: trancl_into_trancl)
  then have pa: "p \<in> CalculateMemPoolAncestors mp itr" by (simp add: CalculateMemPoolAncestors_iff)
  have cnt: "eCountWithAncestors (deref mp p) < eCountWithAncestors (deref mp e)"
    using mc epool p unfolding mempool_consistent_def by blast
  show "p \<in> set its \<union> set (take j
            (SortForBlock mp (insert itr (onlyUnconfirmed ba (CalculateMemPoolAncestors mp itr)))))"
  proof (cases "p \<in> inBlock ba")
    case True
    then show ?thesis using ib by simp
  next
    case False
    then have "p \<in> anc" using pa by (simp add: anc_def onlyUnconfirmed_def)
    then have "p \<in> set xs" using sx by simp
    then obtain i where i: "i < length xs" "xs ! i = p" by (auto simp: in_set_conv_nth)
    have srt: "sorted (map (\<lambda>it. eCountWithAncestors (deref mp it)) xs)"
      unfolding xs_def by (rule sorted_SortForBlock)
    have "eCountWithAncestors (deref mp (xs ! i)) < eCountWithAncestors (deref mp (xs ! j))"
      using cnt unfolding i(2) e_def .
    with srt i(1) jl have ij: "i < j" by (rule sorted_key_index_less)
    have "take j xs ! i \<in> set (take j xs)"
      by (rule nth_mem) (use ij jl in simp)
    then have "p \<in> set (take j xs)" using ij i(2) by simp
    then show ?thesis by (simp add: xs_def anc_def)
  qed
qed

subsection \<open>One pass of the package loop\<close>

lemma addPackageTxs_candidate_cases:
  assumes "addPackageTxs_candidate env mp s itr modit = Continue s'
         \<or> addPackageTxs_candidate env mp s itr modit = Break s'"
  obtains (keep) "pkg_ba s' = pkg_ba s" "set (mapModifiedTx s') \<subseteq> set (mapModifiedTx s)"
  | (add) "itr \<notin> inBlock (pkg_ba s)"
      "pkg_ba s' = foldl (\<lambda>b e. AddToBlock b mp e) (pkg_ba s)
          (SortForBlock mp (insert itr (onlyUnconfirmed (pkg_ba s) (CalculateMemPoolAncestors mp itr))))"
      "mod_iter ` set (mapModifiedTx s') \<subseteq> mod_iter ` set (mapModifiedTx s) \<union> Range (childRel mp)"
proof -
  define ps where "ps = (case modit of None \<Rightarrow> eSizeWithAncestors (deref mp itr) | Some m \<Rightarrow> nSizeWithAncestors m)"
  define pf where "pf = (case modit of None \<Rightarrow> eModFeesWithAncestors (deref mp itr) | Some m \<Rightarrow> nModFeesWithAncestors m)"
  define po where "po = (case modit of None \<Rightarrow> eSigOpCountWithAncestors (deref mp itr) | Some m \<Rightarrow> nSigOpCountWithAncestors m)"
  define anc where "anc = insert itr (onlyUnconfirmed (pkg_ba s) (CalculateMemPoolAncestors mp itr))"
  define sorted where "sorted = SortForBlock mp anc"
  define ba where "ba = foldl (\<lambda>b e. AddToBlock b mp e) (pkg_ba s) sorted"
  define erased where "erased = filter (\<lambda>e. mod_iter e \<notin> set sorted) (mapModifiedTx s)"
  define u where "u = UpdatePackagesForAdded mp anc erased"
  define s1 where "s1 = (erase_failed s modit itr)\<lparr> nConsecutiveFailed := nConsecutiveFailed s + 1 \<rparr>"
  define s2 where "s2 = s\<lparr> pkg_ba := ba, mapModifiedTx := snd u, nConsecutiveFailed := 0,
                           nPackagesSelected := nPackagesSelected s + 1,
                           nDescendantsUpdated := nDescendantsUpdated s + fst u \<rparr>"
  have cand_eq: "addPackageTxs_candidate env mp s itr modit =
     (if itr \<in> inBlock (pkg_ba s) then Abort AssertionFailed
      else if sint pf < sint (blockMinFeeRate_GetFee env ps) then Break s
      else if \<not> TestPackage env (pkg_ba s) ps po then
        (if nConsecutiveFailed s1 > 1000
            \<and> nBlockSize (pkg_ba s1) > nMaxGeneratedBlockSize (pkg_ba s1) - 1000
         then Break s1 else Continue s1)
      else if \<not> TestPackageTransactions env (pkg_ba s) mp anc
      then Continue (erase_failed s modit itr)
      else Continue s2)"
    unfolding addPackageTxs_candidate_def Let_def ps_def pf_def po_def anc_def sorted_def ba_def
      erased_def u_def s1_def s2_def
    by (rule refl)
  note assms' = assms[unfolded cand_eq]
  have k0: "set (mapModifiedTx (erase_failed s modit itr)) \<subseteq> set (mapModifiedTx s)"
    by (rule erase_failed_props(3))
  have b0: "pkg_ba (erase_failed s modit itr) = pkg_ba s" by (rule erase_failed_props(1))
  have b1: "pkg_ba s1 = pkg_ba s" unfolding s1_def by (simp add: erase_failed_props(1))
  have k1: "set (mapModifiedTx s1) \<subseteq> set (mapModifiedTx s)"
    unfolding s1_def using k0 by simp
  show ?thesis
  proof (cases "itr \<in> inBlock (pkg_ba s)")
    case True
    with assms' show ?thesis by simp
  next
    case nin: False
    show ?thesis
    proof (cases "sint pf < sint (blockMinFeeRate_GetFee env ps)")
      case True
      with assms' nin have "s' = s" by simp
      then show ?thesis by (intro keep) simp_all
    next
      case fee: False
      show ?thesis
      proof (cases "TestPackage env (pkg_ba s) ps po")
        case False
        with assms' nin fee have "s' = s1" by (simp split: if_splits)
        then show ?thesis using b1 k1 by (intro keep) simp_all
      next
        case tp: True
        show ?thesis
        proof (cases "TestPackageTransactions env (pkg_ba s) mp anc")
          case False
          with assms' nin fee tp have "s' = erase_failed s modit itr" by simp
          then show ?thesis using b0 k0 by (intro keep) simp_all
        next
          case True
          with assms' nin fee tp have s': "s' = s2" by simp
          have "mod_iter ` set (snd u) \<subseteq> mod_iter ` set erased \<union> Range (childRel mp)"
            unfolding u_def by (rule UpdatePackagesForAdded_iters)
          moreover have "mod_iter ` set erased \<subseteq> mod_iter ` set (mapModifiedTx s)"
            unfolding erased_def by (rule image_mono) simp
          ultimately have "mod_iter ` set (snd u)
                \<subseteq> mod_iter ` set (mapModifiedTx s) \<union> Range (childRel mp)" by blast
          then have m: "mod_iter ` set (mapModifiedTx s')
                \<subseteq> mod_iter ` set (mapModifiedTx s) \<union> Range (childRel mp)"
            unfolding s' s2_def by simp
          have b: "pkg_ba s' = ba" unfolding s' s2_def by simp
          show ?thesis
            by (rule add[OF nin]) (use b m in \<open>simp_all add: ba_def sorted_def anc_def\<close>)
        qed
      qed
    qed
  qed
qed

lemma addPackageTxs_step_cases:
  assumes "addPackageTxs_step env mp s = Continue s' \<or> addPackageTxs_step env mp s = Break s'"
  obtains (keep) "pkg_ba s' = pkg_ba s" "set (mapModifiedTx s') \<subseteq> set (mapModifiedTx s)"
  | (add) itr where "itr \<in> set (mapTx_ancestor_score mp) \<union> mod_iter ` set (mapModifiedTx s)"
      "itr \<notin> inBlock (pkg_ba s)"
      "pkg_ba s' = foldl (\<lambda>b e. AddToBlock b mp e) (pkg_ba s)
          (SortForBlock mp (insert itr (onlyUnconfirmed (pkg_ba s) (CalculateMemPoolAncestors mp itr))))"
      "mod_iter ` set (mapModifiedTx s') \<subseteq> mod_iter ` set (mapModifiedTx s) \<union> Range (childRel mp)"
proof -
  note K = keep and A = add
  define idx where "idx = mapTx_ancestor_score mp"
  define sn where "sn = s\<lparr> mi := mi s + 1 \<rparr>"
  have sn: "pkg_ba sn = pkg_ba s" "mapModifiedTx sn = mapModifiedTx s" by (simp_all add: sn_def)
  have step_eq: "addPackageTxs_step env mp s =
     (if \<not> (mi s < length idx \<or> mapModifiedTx s \<noteq> []) then Break s
      else if mi s < length idx
              \<and> SkipMapTxEntry (pkg_ba s) (idx ! mi s) (mapModifiedTx s) (failedTx s)
      then Continue sn
      else
        (case mapModifiedTx s of
           [] \<Rightarrow> addPackageTxs_candidate env mp sn (idx ! mi s) None
         | x # xs \<Rightarrow>
             if \<not> mi s < length idx
             then addPackageTxs_candidate env mp s
                    (mod_iter (best_modified (CompareModifiedEntry env) x xs))
                    (Some (best_modified (CompareModifiedEntry env) x xs))
             else if CompareModifiedEntry env (best_modified (CompareModifiedEntry env) x xs)
                       (ModifiedEntry mp (idx ! mi s))
             then addPackageTxs_candidate env mp s
                    (mod_iter (best_modified (CompareModifiedEntry env) x xs))
                    (Some (best_modified (CompareModifiedEntry env) x xs))
             else addPackageTxs_candidate env mp sn (idx ! mi s) None))"
    unfolding addPackageTxs_step_def Let_def idx_def sn_def by (rule refl)
  note assms' = assms[unfolded step_eq]
  have fromTx: thesis
    if c: "addPackageTxs_candidate env mp sn (idx ! mi s) None = Continue s'
           \<or> addPackageTxs_candidate env mp sn (idx ! mi s) None = Break s'"
      and lt: "mi s < length idx"
    using c
  proof (cases rule: addPackageTxs_candidate_cases)
    case keep
    show ?thesis by (rule K) (use keep sn in simp_all)
  next
    case add
    have "idx ! mi s \<in> set idx" using lt by (rule nth_mem)
    then have mem: "idx ! mi s \<in> set (mapTx_ancestor_score mp) \<union> mod_iter ` set (mapModifiedTx s)"
      by (simp add: idx_def)
    show ?thesis by (rule A[OF mem]) (use add sn in simp_all)
  qed
  have fromMod: thesis
    if c: "addPackageTxs_candidate env mp s (mod_iter m) (Some m) = Continue s'
           \<or> addPackageTxs_candidate env mp s (mod_iter m) (Some m) = Break s'"
      and m: "m \<in> set (mapModifiedTx s)" for m
    using c
  proof (cases rule: addPackageTxs_candidate_cases)
    case keep
    show ?thesis by (rule K) (use keep in simp_all)
  next
    case add
    have mem: "mod_iter m \<in> set (mapTx_ancestor_score mp) \<union> mod_iter ` set (mapModifiedTx s)"
      using m by simp
    show ?thesis by (rule A[OF mem]) (use add in simp_all)
  qed
  show ?thesis
  proof (cases "mi s < length idx \<or> mapModifiedTx s \<noteq> []")
    case False
    with assms' have "s' = s" by simp
    then show ?thesis by (intro K) simp_all
  next
    case cond: True
    show ?thesis
    proof (cases "mi s < length idx
              \<and> SkipMapTxEntry (pkg_ba s) (idx ! mi s) (mapModifiedTx s) (failedTx s)")
      case True
      with assms' cond have "s' = sn" by simp
      then show ?thesis using sn by (intro K) simp_all
    next
      case noskip: False
      show ?thesis
      proof (cases "mapModifiedTx s")
        case Nil
        with cond have lt: "mi s < length idx" by simp
        from assms' cond noskip Nil
        have "addPackageTxs_candidate env mp sn (idx ! mi s) None = Continue s'
           \<or> addPackageTxs_candidate env mp sn (idx ! mi s) None = Break s'"
          by simp
        then show ?thesis using lt by (rule fromTx)
      next
        case (Cons x xs)
        define m where "m = best_modified (CompareModifiedEntry env) x xs"
        have min: "m \<in> set (mapModifiedTx s)"
          using best_modified_in_set[of "CompareModifiedEntry env" x xs] Cons by (simp add: m_def)
        note a1 = assms'[unfolded Cons list.case m_def[symmetric]]
        show ?thesis
        proof (cases "mi s < length idx")
          case False
          with a1 cond noskip Cons
          have "addPackageTxs_candidate env mp s (mod_iter m) (Some m) = Continue s'
           \<or> addPackageTxs_candidate env mp s (mod_iter m) (Some m) = Break s'"
            by simp
          then show ?thesis using min by (rule fromMod)
        next
          case lt: True
          show ?thesis
          proof (cases "CompareModifiedEntry env m (ModifiedEntry mp (idx ! mi s))")
            case True
            with a1 cond noskip Cons lt
            have "addPackageTxs_candidate env mp s (mod_iter m) (Some m) = Continue s'
             \<or> addPackageTxs_candidate env mp s (mod_iter m) (Some m) = Break s'"
              by simp
            then show ?thesis using min by (rule fromMod)
          next
            case False
            with a1 cond noskip Cons lt
            have "addPackageTxs_candidate env mp sn (idx ! mi s) None = Continue s'
             \<or> addPackageTxs_candidate env mp sn (idx ! mi s) None = Break s'"
              by simp
            then show ?thesis using lt by (rule fromTx)
          qed
        qed
      qed
    qed
  qed
qed

subsection \<open>The invariants through both loops\<close>

lemma pkg_invI:
  assumes "assembled mp (pkg_ba s) its"
    and "mempool_consistent mp \<Longrightarrow> parents_first mp its"
    and "mempool_consistent mp \<Longrightarrow> set its \<subseteq> set (mapTx mp)"
    and "mempool_consistent mp \<Longrightarrow> mod_iter ` set (mapModifiedTx s) \<subseteq> set (mapTx mp)"
  shows "pkg_inv mp s"
  unfolding pkg_inv_def using assms by blast

lemma pkg_inv_step:
  assumes inv: "pkg_inv mp s"
    and st: "addPackageTxs_step env mp s = Continue s' \<or> addPackageTxs_step env mp s = Break s'"
  shows "pkg_inv mp s'"
proof -
  from inv obtain its where its: "assembled mp (pkg_ba s) its"
    and C: "mempool_consistent mp \<longrightarrow> parents_first mp its \<and> set its \<subseteq> set (mapTx mp)
            \<and> mod_iter ` set (mapModifiedTx s) \<subseteq> set (mapTx mp)"
    unfolding pkg_inv_def by blast
  from st show ?thesis
  proof (cases rule: addPackageTxs_step_cases)
    case keep
    have a: "assembled mp (pkg_ba s') its" using its by (simp only: keep(1))
    have m: "mod_iter ` set (mapModifiedTx s') \<subseteq> mod_iter ` set (mapModifiedTx s)"
      using keep(2) by (rule image_mono)
    show ?thesis
      by (rule pkg_invI[OF a]) (use C m in blast)+
  next
    case (add itr)
    define anc where "anc = insert itr (onlyUnconfirmed (pkg_ba s) (CalculateMemPoolAncestors mp itr))"
    define xs where "xs = SortForBlock mp anc"
    have ba: "pkg_ba s' = foldl (\<lambda>b e. AddToBlock b mp e) (pkg_ba s) xs"
      using add(3) by (simp only: xs_def anc_def)
    have ib: "inBlock (pkg_ba s) = set its" using its unfolding assembled_def by blast
    have fin: "finite anc"
      using finite_CalculateMemPoolAncestors[of mp itr] by (simp add: anc_def onlyUnconfirmed_def)
    have sx: "set xs = anc" unfolding xs_def using fin by (rule set_SortForBlock)
    have dx: "distinct xs" unfolding xs_def SortForBlock_def by simp
    have "anc \<inter> inBlock (pkg_ba s) = {}"
      using add(2) by (auto simp: anc_def onlyUnconfirmed_def)
    then have "set xs \<inter> inBlock (pkg_ba s) = {}" unfolding sx .
    with its dx have a: "assembled mp (pkg_ba s') (its @ xs)"
      unfolding ba by (rule assembled_foldl_AddToBlock)
    show ?thesis
    proof (rule pkg_invI[OF a])
      assume mc: "mempool_consistent mp"
      from C mc have pf: "parents_first mp its" and sub: "set its \<subseteq> set (mapTx mp)"
        and ms: "mod_iter ` set (mapModifiedTx s) \<subseteq> set (mapTx mp)" by blast+
      have "set (mapTx_ancestor_score mp) \<subseteq> set (mapTx mp)"
        using mc unfolding mempool_consistent_def by blast
      with add(1) ms have itr: "itr \<in> set (mapTx mp)" by blast
      have "\<forall>j<length xs. set (GetMemPoolParents mp (xs ! j)) \<subseteq> set its \<union> set (take j xs)"
        unfolding xs_def anc_def using sorted_package_parents[OF mc itr ib] by blast
      with pf show "parents_first mp (its @ xs)" by (rule parents_first_append)
      have "anc \<subseteq> set (mapTx mp)"
        using itr consistent_ancestor_in_pool[OF mc]
        by (auto simp: anc_def onlyUnconfirmed_def CalculateMemPoolAncestors_iff)
      then show "set (its @ xs) \<subseteq> set (mapTx mp)" using sub sx by simp
      show "mod_iter ` set (mapModifiedTx s') \<subseteq> set (mapTx mp)"
        using add(4) ms consistent_Range_childRel[OF mc] by blast
    qed
  qed
qed

lemma pkg_inv_loop:
  assumes "addPackageTxs_loop env mp s = Inr s'" "pkg_inv mp s"
  shows "pkg_inv mp s'"
  using assms
proof (induction env mp s rule: addPackageTxs_loop.induct)
  case (1 env mp s)
  show ?case
  proof (cases "addPackageTxs_step env mp s")
    case (Continue s1)
    then have "pkg_inv mp s1" using pkg_inv_step[OF "1.prems"(2)] by blast
    moreover have "addPackageTxs_loop env mp s1 = Inr s'"
      using "1.prems"(1) Continue by (simp add: addPackageTxs_loop.simps[of env mp s])
    ultimately show ?thesis using "1.IH"[OF Continue] by blast
  next
    case (Break s1)
    then have "pkg_inv mp s1" using pkg_inv_step[OF "1.prems"(2)] by blast
    moreover have "s1 = s'"
      using "1.prems"(1) Break by (simp add: addPackageTxs_loop.simps[of env mp s])
    ultimately show ?thesis by simp
  next
    case (Abort e)
    then show ?thesis
      using "1.prems"(1) by (simp add: addPackageTxs_loop.simps[of env mp s])
  qed
qed

lemma nHeight_pri_step:
  assumes "addPriorityTxs_step env mp n s = Continue s' \<or> addPriorityTxs_step env mp n s = Break s'"
  shows "nHeight (pri_ba s') = nHeight (pri_ba s)"
  using assms by (cases rule: addPriorityTxs_step_cases) simp_all

lemma nHeight_pri_loop:
  assumes "addPriorityTxs_loop env mp n s = Inr s'"
  shows "nHeight (pri_ba s') = nHeight (pri_ba s)"
  using assms
proof (induction env mp n s rule: addPriorityTxs_loop.induct)
  case (1 env mp n s)
  show ?case
  proof (cases "addPriorityTxs_step env mp n s")
    case (Continue s1)
    then have "nHeight (pri_ba s1) = nHeight (pri_ba s)" using nHeight_pri_step by blast
    moreover have "addPriorityTxs_loop env mp n s1 = Inr s'"
      using "1.prems"(1) Continue by (simp add: addPriorityTxs_loop.simps[of env mp n s])
    ultimately show ?thesis using "1.IH"[OF Continue] by simp
  next
    case (Break s1)
    then have "nHeight (pri_ba s1) = nHeight (pri_ba s)" using nHeight_pri_step by blast
    moreover have "s1 = s'"
      using "1.prems"(1) Break by (simp add: addPriorityTxs_loop.simps[of env mp n s])
    ultimately show ?thesis by simp
  next
    case (Abort e)
    then show ?thesis
      using "1.prems"(1) by (simp add: addPriorityTxs_loop.simps[of env mp n s])
  qed
qed

lemma nHeight_pkg_step:
  assumes "addPackageTxs_step env mp s = Continue s' \<or> addPackageTxs_step env mp s = Break s'"
  shows "nHeight (pkg_ba s') = nHeight (pkg_ba s)"
  using assms by (cases rule: addPackageTxs_step_cases) simp_all

lemma nHeight_pkg_loop:
  assumes "addPackageTxs_loop env mp s = Inr s'"
  shows "nHeight (pkg_ba s') = nHeight (pkg_ba s)"
  using assms
proof (induction env mp s rule: addPackageTxs_loop.induct)
  case (1 env mp s)
  show ?case
  proof (cases "addPackageTxs_step env mp s")
    case (Continue s1)
    then have "nHeight (pkg_ba s1) = nHeight (pkg_ba s)" using nHeight_pkg_step by blast
    moreover have "addPackageTxs_loop env mp s1 = Inr s'"
      using "1.prems"(1) Continue by (simp add: addPackageTxs_loop.simps[of env mp s])
    ultimately show ?thesis using "1.IH"[OF Continue] by simp
  next
    case (Break s1)
    then have "nHeight (pkg_ba s1) = nHeight (pkg_ba s)" using nHeight_pkg_step by blast
    moreover have "s1 = s'"
      using "1.prems"(1) Break by (simp add: addPackageTxs_loop.simps[of env mp s])
    ultimately show ?thesis by simp
  next
    case (Abort e)
    then show ?thesis
      using "1.prems"(1) by (simp add: addPackageTxs_loop.simps[of env mp s])
  qed
qed

subsection \<open>From the empty template to the finished block\<close>

lemma parents_first_Nil: "parents_first mp []"
  by (simp add: parents_first_def)

lemma assembled_initialAssembler: "assembled mp (initialAssembler env pindexPrev) []"
  by (simp add: initialAssembler_def resetBlock_def assembled_def Let_def)

lemma nHeight_initialAssembler:
  "nHeight (initialAssembler env pindexPrev) = tip_nHeight pindexPrev + 1"
  by (simp add: initialAssembler_def resetBlock_def Let_def)

lemma addPriorityTxs_assembled:
  assumes r: "addPriorityTxs env mp ba = Inr ba'" and a: "assembled mp ba []"
  shows "\<exists>its. assembled mp ba' its \<and> parents_first mp its \<and> set its \<subseteq> set (mapTx mp)"
    and "nHeight ba' = nHeight ba"
proof -
  define n where "n = nMaxGeneratedBlockSize ba * BlockPriorityPercentage env div 100"
  define s0 where "s0 = \<lparr> pri_ba = ba,
      vecPriority = map (\<lambda>it. (ePriority (deref mp it) (nHeight ba), it)) (mapTx mp),
      waitPriMap = [] \<rparr>"
  have eq: "addPriorityTxs env mp ba =
     (if BlockPriorityPercentage env = 0 then Inr ba
      else case addPriorityTxs_loop env mp n s0 of Inl e \<Rightarrow> Inl e | Inr s \<Rightarrow> Inr (pri_ba s))"
    unfolding addPriorityTxs_def Let_def n_def s0_def by (rule refl)
  have "(\<exists>its. assembled mp ba' its \<and> parents_first mp its \<and> set its \<subseteq> set (mapTx mp))
        \<and> nHeight ba' = nHeight ba"
  proof (cases "BlockPriorityPercentage env = 0")
    case True
    with r eq have "ba' = ba" by simp
    then show ?thesis using a parents_first_Nil[of mp] by auto
  next
    case False
    with r eq obtain s where s: "addPriorityTxs_loop env mp n s0 = Inr s" and b: "ba' = pri_ba s"
      by (auto split: sum.splits)
    have v: "snd ` set (vecPriority s0) \<subseteq> set (mapTx mp)"
      by (simp add: s0_def image_image)
    have "pri_inv mp s0"
      by (rule pri_invI[of mp s0 "[]"]) (use a v parents_first_Nil[of mp] in \<open>simp_all add: s0_def\<close>)
    with s have "pri_inv mp s" by (rule pri_inv_loop)
    moreover have "nHeight (pri_ba s) = nHeight ba"
      using nHeight_pri_loop[OF s] by (simp add: s0_def)
    ultimately show ?thesis unfolding b pri_inv_def by blast
  qed
  then show "\<exists>its. assembled mp ba' its \<and> parents_first mp its \<and> set its \<subseteq> set (mapTx mp)"
    and "nHeight ba' = nHeight ba" by blast+
qed

lemma addPackageTxs_assembled:
  assumes r: "addPackageTxs env mp ba = Inr res"
    and a: "assembled mp ba its0" "parents_first mp its0" "set its0 \<subseteq> set (mapTx mp)"
  shows "pkg_inv mp \<lparr> pkg_ba = fst res, mi = 0, mapModifiedTx = [], failedTx = {},
            nConsecutiveFailed = 0, nPackagesSelected = 0, nDescendantsUpdated = 0 \<rparr>"
    and "nHeight (fst res) = nHeight ba"
proof -
  define s0 where "s0 = \<lparr> pkg_ba = ba, mi = 0,
               mapModifiedTx = snd (UpdatePackagesForAdded mp (inBlock ba) []),
               failedTx = {}, nConsecutiveFailed = 0, nPackagesSelected = 0,
               nDescendantsUpdated = 0 \<rparr>"
  have eq: "addPackageTxs env mp ba =
     (case addPackageTxs_loop env mp s0 of Inl e \<Rightarrow> Inl e
      | Inr s \<Rightarrow> Inr (pkg_ba s, nPackagesSelected s, nDescendantsUpdated s))"
    unfolding addPackageTxs_def s0_def by (rule refl)
  from r eq obtain s where s: "addPackageTxs_loop env mp s0 = Inr s" and b: "fst res = pkg_ba s"
    by (auto split: sum.splits)
  have m0: "mod_iter ` set (mapModifiedTx s0) \<subseteq> Range (childRel mp)"
    using UpdatePackagesForAdded_iters[of mp "inBlock ba" "[]"] by (simp add: s0_def)
  have "pkg_inv mp s0"
  proof (rule pkg_invI[of mp s0 its0])
    show "assembled mp (pkg_ba s0) its0" using a(1) by (simp add: s0_def)
    show "parents_first mp its0" by (rule a(2))
    show "set its0 \<subseteq> set (mapTx mp)" by (rule a(3))
    assume "mempool_consistent mp"
    from consistent_Range_childRel[OF this] m0
    show "mod_iter ` set (mapModifiedTx s0) \<subseteq> set (mapTx mp)" by blast
  qed
  with s have "pkg_inv mp s" by (rule pkg_inv_loop)
  then show "pkg_inv mp \<lparr> pkg_ba = fst res, mi = 0, mapModifiedTx = [], failedTx = {},
            nConsecutiveFailed = 0, nPackagesSelected = 0, nDescendantsUpdated = 0 \<rparr>"
    unfolding pkg_inv_def b by auto
  show "nHeight (fst res) = nHeight ba"
    using nHeight_pkg_loop[OF s] by (simp add: s0_def b)
qed

lemma CreateNewBlock_assembled:
  assumes "CreateNewBlock env mp pindexPrev scriptPubKeyIn = Inr tmpl"
  obtains its ba where "assembled mp ba its"
    "mempool_consistent mp \<Longrightarrow> parents_first mp its"
    "mempool_consistent mp \<Longrightarrow> set its \<subseteq> set (mapTx mp)"
    "finishBlock env pindexPrev scriptPubKeyIn ba = Inr tmpl"
    "nHeight ba = tip_nHeight pindexPrev + 1"
proof -
  from assms obtain ba1 res where
    p1: "addPriorityTxs env mp (initialAssembler env pindexPrev) = Inr ba1"
    and p2: "addPackageTxs env mp ba1 = Inr res"
    and f: "finishBlock env pindexPrev scriptPubKeyIn (fst res) = Inr tmpl"
    unfolding CreateNewBlock_def by (auto split: sum.splits)
  from addPriorityTxs_assembled[OF p1 assembled_initialAssembler]
  obtain its1 where i1: "assembled mp ba1 its1" "parents_first mp its1" "set its1 \<subseteq> set (mapTx mp)"
    and h1: "nHeight ba1 = nHeight (initialAssembler env pindexPrev)" by blast
  from addPackageTxs_assembled[OF p2 i1]
  obtain its where i2: "assembled mp (fst res) its"
    and C: "mempool_consistent mp \<longrightarrow> parents_first mp its \<and> set its \<subseteq> set (mapTx mp)"
    and h2: "nHeight (fst res) = nHeight ba1"
    unfolding pkg_inv_def by auto
  have h: "nHeight (fst res) = tip_nHeight pindexPrev + 1"
    using h1 h2 by (simp add: nHeight_initialAssembler)
  show ?thesis
    by (rule that[OF i2 _ _ f h]) (use C in blast)+
qed

lemma finishBlock_result:
  assumes f: "finishBlock env pindexPrev scriptPubKeyIn ba = Inr tmpl"
    and a: "assembled mp ba its"
  shows "vtx (block tmpl) = MakeTransactionRef env (coinbaseTx env ba scriptPubKeyIn)
                              # map (\<lambda>i. eTx (deref mp i)) its"
    and "vTxFees tmpl = (- 1 * nFees ba) # map (\<lambda>i. eFee (deref mp i)) its"
    and "nChainInterest (block tmpl) = tip_nChainInterest pindexPrev + nInterest ba"
    and "TestBlockValidity env (block tmpl)"
proof -
  from a obtain first fee0 where
    v: "vtx (block (pblocktemplate ba)) = first # map (\<lambda>i. eTx (deref mp i)) its"
    and fe: "vTxFees (pblocktemplate ba) = fee0 # map (\<lambda>i. eFee (deref mp i)) its"
    unfolding assembled_def by blast
  define cb where "cb = MakeTransactionRef env (coinbaseTx env ba scriptPubKeyIn)"
  define t where "t = pblocktemplate ba"
  define b1 where "b1 = (block t)\<lparr> vtx := (vtx (block t))[0 := cb],
                          nChainInterest := tip_nChainInterest pindexPrev + nInterest ba,
                          hashPrevBlock := tip_hash pindexPrev \<rparr>"
  define b2 where "b2 = UpdateTime env pindexPrev b1"
  define b3 where "b3 = b2\<lparr> nBits := GetNextWorkRequired env b2, nNonce := 0 \<rparr>"
  define t1 where "t1 = t\<lparr> block := b3,
                  vTxFees := (vTxFees t)[0 := - 1 * nFees ba],
                  vTxSigOpsCount := (vTxSigOpsCount t)[0 := GetSigOpCountWithoutP2SH env cb] \<rparr>"
  have eq: "finishBlock env pindexPrev scriptPubKeyIn ba =
      (if \<not> TestBlockValidity env b3 then Inl TestBlockValidityFailed else Inr t1)"
    unfolding finishBlock_def Let_def cb_def t_def b1_def b2_def b3_def t1_def by (rule refl)
  from f eq have ok: "TestBlockValidity env b3" and tm: "tmpl = t1"
    by (auto split: if_splits)
  have u: "vtx b2 = vtx b1" "nChainInterest b2 = nChainInterest b1"
    unfolding b2_def UpdateTime_def Let_def by simp_all
  have blk: "block tmpl = b3" unfolding tm t1_def by simp
  show "vtx (block tmpl) = MakeTransactionRef env (coinbaseTx env ba scriptPubKeyIn)
                              # map (\<lambda>i. eTx (deref mp i)) its"
    unfolding blk b3_def using u(1) v by (simp add: b1_def t_def cb_def)
  show "vTxFees tmpl = (- 1 * nFees ba) # map (\<lambda>i. eFee (deref mp i)) its"
    unfolding tm t1_def using fe by (simp add: t_def)
  show "nChainInterest (block tmpl) = tip_nChainInterest pindexPrev + nInterest ba"
    unfolding blk b3_def using u(2) by (simp add: b1_def)
  show "TestBlockValidity env (block tmpl)" unfolding blk by (rule ok)
qed

subsection \<open>The sample pool, evaluated\<close>

lemma trancl_one: "{(a, b)}\<^sup>+ = {(a, b)}"
  by (auto simp: trancl_insert)

lemma sample_parentRel: "parentRel sample_mempool = {(3, 2)}"
  by (simp add: parentRel_def GetMemPoolParents_def sample_mempool_def sample_parent_def sample_child_def)

lemma sample_childRel: "childRel sample_mempool = {(2, 3)}"
  by (simp add: childRel_def GetMemPoolChildren_def sample_mempool_def sample_parent_def sample_child_def)

lemma sample_ancestors:
  "CalculateMemPoolAncestors sample_mempool 3 = {2}"
  "CalculateMemPoolAncestors sample_mempool 2 = {}"
  unfolding CalculateMemPoolAncestors_def sample_parentRel trancl_one by auto

lemma sample_descendants:
  "CalculateDescendants sample_mempool 2 = {2, 3}"
  "CalculateDescendants sample_mempool 3 = {3}"
  unfolding CalculateDescendants_def sample_childRel trancl_one by auto

lemma sl: "sorted_list_of_set {2::nat, 3} = [2, 3]" "sorted_list_of_set {3::nat} = [3]"
  by simp_all

lemma sample_consistent: "mempool_consistent sample_mempool"
  by (simp add: mempool_consistent_def GetMemPoolParents_def GetMemPoolChildren_def
      sample_mempool_def sample_parent_def sample_child_def sample_pool_tx_def)

lemma sample_deref:
  "deref sample_mempool 2 = sample_parent" "deref sample_mempool 3 = sample_child"
  by (simp_all add: sample_mempool_def)

lemma sample_priority: "addPriorityTxs sample_env sample_mempool ba = Inr ba"
  by (simp add: addPriorityTxs_def sample_env_def)

lemma sample_initial:
  "inBlock (initialAssembler sample_env (sample_tip ci)) = {}"
  "nBlockSize (initialAssembler sample_env (sample_tip ci)) = 1000"
  "nBlockSigOps (initialAssembler sample_env (sample_tip ci)) = 100"
  "nMaxGeneratedBlockSize (initialAssembler sample_env (sample_tip ci)) = 2000000"
  "nHeight (initialAssembler sample_env (sample_tip ci)) = 11"
  by (simp_all add: initialAssembler_def resetBlock_def Let_def ComputeMaxGeneratedBlockSize_def
      sample_env_def sample_tip_def)

lemma sample_update_none: "UpdatePackagesForAdded sample_mempool {} [] = (0, [])"
  by (simp add: UpdatePackagesForAdded_def)

lemma sample_update_both: "UpdatePackagesForAdded sample_mempool {3, 2} [] = (0, [])"
proof -
  have "sorted_list_of_set {3::nat, 2} = [2, 3]" by (simp add: insert_commute)
  then show ?thesis
    by (simp add: UpdatePackagesForAdded_def sample_descendants sl UpdateDescendant_def)
qed

lemma sample_sort: "SortForBlock sample_mempool {3, 2} = [2, 3]"
proof -
  have "sorted_list_of_set {3::nat, 2} = [2, 3]" by (simp add: insert_commute)
  then show ?thesis
    by (simp add: SortForBlock_def sample_deref sample_parent_def sample_child_def)
qed

lemma sample_index: "mapTx_ancestor_score sample_mempool = [3, 2]"
  by (simp add: sample_mempool_def)

lemma sample_child_totals:
  "eSizeWithAncestors sample_child = 400" "eModFeesWithAncestors sample_child = 500"
  "eSigOpCountWithAncestors sample_child = 2"
  by (simp_all add: sample_child_def)

lemma sample_collaborators:
  "blockMinFeeRate_GetFee sample_env n = 0" "GetMaxBlockSigOpsCount sample_env n = 20000"
  "ContextualCheckTransaction sample_env tx h t" "GetSerializeSize sample_env tx = 200"
  by (simp_all add: sample_env_def)

lemma sample_candidate:
  assumes "inBlock ba = {}" "nBlockSize ba = 1000" "nBlockSigOps ba = 100"
    "nMaxGeneratedBlockSize ba = 2000000"
  shows "addPackageTxs_candidate sample_env sample_mempool
           \<lparr> pkg_ba = ba, mi = 1, mapModifiedTx = [], failedTx = {}, nConsecutiveFailed = 0,
             nPackagesSelected = 0, nDescendantsUpdated = 0 \<rparr> 3 None
         = Continue \<lparr> pkg_ba = AddToBlock (AddToBlock ba sample_mempool 2) sample_mempool 3, mi = 1,
             mapModifiedTx = [], failedTx = {}, nConsecutiveFailed = 0,
             nPackagesSelected = 1, nDescendantsUpdated = 0 \<rparr>"
proof -
  have anc: "insert 3 (onlyUnconfirmed ba (CalculateMemPoolAncestors sample_mempool 3)) = {3, 2}"
    using assms(1) by (auto simp: onlyUnconfirmed_def sample_ancestors)
  have tp: "TestPackage sample_env ba 400 2"
    using assms by (simp add: TestPackage_def sample_collaborators)
  have "sorted_list_of_set {3::nat, 2} = [2, 3]" by (simp add: insert_commute)
  then have tpt: "TestPackageTransactions sample_env ba sample_mempool {3, 2}"
    using assms by (simp add: TestPackageTransactions_def sample_collaborators)
  show ?thesis
    unfolding addPackageTxs_candidate_def
    using assms(1) tp tpt
    by (simp add: Let_def anc sample_deref sample_child_totals sample_collaborators
        sample_sort sample_update_both)
qed

lemma sample_addPackageTxs:
  assumes "inBlock ba = {}" "nBlockSize ba = 1000" "nBlockSigOps ba = 100"
    "nMaxGeneratedBlockSize ba = 2000000"
  shows "addPackageTxs sample_env sample_mempool ba
         = Inr (AddToBlock (AddToBlock ba sample_mempool 2) sample_mempool 3, 1, 0)"
proof -
  define ba2 where "ba2 = AddToBlock (AddToBlock ba sample_mempool 2) sample_mempool 3"
  define s0 where "s0 = \<lparr> pkg_ba = ba, mi = 0, mapModifiedTx = [], failedTx = {},
      nConsecutiveFailed = 0, nPackagesSelected = 0, nDescendantsUpdated = 0 \<rparr>"
  define s1 where "s1 = \<lparr> pkg_ba = ba2, mi = 1, mapModifiedTx = [], failedTx = {},
      nConsecutiveFailed = 0, nPackagesSelected = 1, nDescendantsUpdated = 0 \<rparr>"
  define s2 where "s2 = \<lparr> pkg_ba = ba2, mi = 2, mapModifiedTx = [], failedTx = {},
      nConsecutiveFailed = 0, nPackagesSelected = 1, nDescendantsUpdated = 0 \<rparr>"
  have ib2: "inBlock ba2 = {3, 2}" using assms(1) by (simp add: ba2_def inBlock_AddToBlock)
  have st0: "addPackageTxs_step sample_env sample_mempool s0 = Continue s1"
    unfolding addPackageTxs_step_def s0_def s1_def ba2_def
    using sample_candidate[OF assms] assms(1)
    by (simp add: Let_def sample_index SkipMapTxEntry_def)
  have st1: "addPackageTxs_step sample_env sample_mempool s1 = Continue s2"
    unfolding addPackageTxs_step_def s1_def s2_def
    using ib2 by (simp add: Let_def sample_index SkipMapTxEntry_def)
  have st2: "addPackageTxs_step sample_env sample_mempool s2 = Break s2"
    unfolding addPackageTxs_step_def s2_def
    by (simp add: Let_def sample_index)
  have "addPackageTxs_loop sample_env sample_mempool s2 = Inr s2"
    by (simp add: addPackageTxs_loop.simps[of _ _ s2] st2)
  then have "addPackageTxs_loop sample_env sample_mempool s1 = Inr s2"
    by (simp add: addPackageTxs_loop.simps[of _ _ s1] st1)
  then have "addPackageTxs_loop sample_env sample_mempool s0 = Inr s2"
    by (simp add: addPackageTxs_loop.simps[of _ _ s0] st0)
  then show ?thesis
    unfolding addPackageTxs_def assms(1) sample_update_none
    by (simp add: s0_def[symmetric]) (simp add: s2_def ba2_def)
qed

lemma sample_finish:
  "finishBlock sample_env (sample_tip ci) []
     (AddToBlock (AddToBlock (initialAssembler sample_env (sample_tip ci)) sample_mempool 2)
        sample_mempool 3)
   = Inr (sample_template (ci + 100))"
  by (simp add: finishBlock_def AddToBlock_def initialAssembler_def resetBlock_def Let_def
      coinbaseTx_def MakeTransactionRef_def UpdateTime_def sample_template_def TX_FLAGS_COINBASE_def
      sample_deref sample_parent_def sample_child_def sample_env_def sample_tip_def)

lemma sample_CreateNewBlock:
  "CreateNewBlock sample_env sample_mempool (sample_tip ci) [] = Inr (sample_template (ci + 100))"
  unfolding CreateNewBlock_def sample_priority
  by (simp add: sample_addPackageTxs[OF sample_initial(1-4)] sample_finish)

subsection \<open>Sums of amounts\<close>



lemma sum_list_sint:
  "sum_list (ws :: 64 word list) = word_of_int (\<Sum>w\<leftarrow>ws. sint w)"
  by (induction ws) simp_all

lemma sint_word_of_int_in_range:
  assumes "- (2 ^ 63) \<le> x" "x < 2 ^ 63"
  shows "sint (word_of_int x :: 64 word) = x"
  using assms by (simp add: sint_sbintrunc' signed_take_bit_int_eq_self)




subsection \<open>The template that \<^verbatim>\<open>CreateNewBlock\<close> returns\<close>



text \<open>
  C2.  Whenever \<^verbatim>\<open>CreateNewBlock\<close> returns a template, the block is the coinbase
  followed by the transactions of the entries it added, the coinbase has exactly one
  output, and the value of that output is the sum of the fees of those entries plus the
  subsidy at the height of the new block (the height of the tip plus one).  The sum is
  the 64-bit sum the code computes; it is the sum of the integers whenever that fits in a
  \<^verbatim>\<open>CAmount\<close>.
\<close>

theorem CreateNewBlock_coinbase_value:
  assumes "CreateNewBlock env mp pindexPrev scriptPubKeyIn = Inr tmpl"
  shows "\<exists>cb out0 its.
           vtx (block tmpl) = cb # map (\<lambda>i. eTx (deref mp i)) its
         \<and> tl (vTxFees tmpl) = map (\<lambda>i. eFee (deref mp i)) its
         \<and> vout cb = [out0]
         \<and> nValue out0 = (\<Sum>i\<leftarrow>its. eFee (deref mp i))
                             + GetBlockSubsidy env (tip_nHeight pindexPrev + 1)
         \<and> (- (2 ^ 63) \<le> (\<Sum>i\<leftarrow>its. sint (eFee (deref mp i)))
                             + sint (GetBlockSubsidy env (tip_nHeight pindexPrev + 1))
            \<and> (\<Sum>i\<leftarrow>its. sint (eFee (deref mp i)))
                 + sint (GetBlockSubsidy env (tip_nHeight pindexPrev + 1)) < 2 ^ 63
            \<longrightarrow> sint (nValue out0)
                  = (\<Sum>i\<leftarrow>its. sint (eFee (deref mp i)))
                    + sint (GetBlockSubsidy env (tip_nHeight pindexPrev + 1)))"
proof -
  from assms obtain its ba where a: "assembled mp ba its"
    and f: "finishBlock env pindexPrev scriptPubKeyIn ba = Inr tmpl"
    and h: "nHeight ba = tip_nHeight pindexPrev + 1"
    by (rule CreateNewBlock_assembled)
  define cb where "cb = MakeTransactionRef env (coinbaseTx env ba scriptPubKeyIn)"
  define sub where "sub = GetBlockSubsidy env (tip_nHeight pindexPrev + 1)"
  define out0 where "out0 = \<lparr> nValue = nFees ba + sub, nPrincipal = 0,
      scriptPubKey = scriptPubKeyIn, strContent = [], nLockTime = COINBASE_MATURITY env \<rparr>"
  define T where "T = (\<Sum>i\<leftarrow>its. sint (eFee (deref mp i))) + sint sub"
  have v: "vtx (block tmpl) = cb # map (\<lambda>i. eTx (deref mp i)) its"
    unfolding cb_def using f a by (rule finishBlock_result(1))
  have "vTxFees tmpl = (- 1 * nFees ba) # map (\<lambda>i. eFee (deref mp i)) its"
    using f a by (rule finishBlock_result(2))
  then have fe: "tl (vTxFees tmpl) = map (\<lambda>i. eFee (deref mp i)) its" by simp
  have o: "vout cb = [out0]"
    unfolding cb_def out0_def sub_def MakeTransactionRef_def coinbaseTx_def Let_def h by simp
  have nf: "nFees ba = (\<Sum>i\<leftarrow>its. eFee (deref mp i))" using a unfolding assembled_def by blast
  have val: "nValue out0 = (\<Sum>i\<leftarrow>its. eFee (deref mp i)) + sub"
    unfolding out0_def nf by simp
  have "(\<Sum>i\<leftarrow>its. eFee (deref mp i)) = word_of_int (\<Sum>i\<leftarrow>its. sint (eFee (deref mp i)))"
    using sum_list_sint[of "map (\<lambda>i. eFee (deref mp i)) its"] by (simp add: comp_def)
  then have "nValue out0 = word_of_int T" unfolding val T_def by simp
  then have int: "- (2 ^ 63) \<le> T \<and> T < 2 ^ 63 \<longrightarrow> sint (nValue out0) = T"
    using sint_word_of_int_in_range[of T] by simp
  from v fe o val int show ?thesis unfolding T_def sub_def by blast
qed

theorem CreateNewBlock_coinbase_value_witness:
  "CreateNewBlock sample_env sample_mempool (sample_tip 7) [] = Inr (sample_template 107)
   \<and> (\<exists>cb out0 its.
           vtx (block (sample_template 107)) = cb # map (\<lambda>i. eTx (deref sample_mempool i)) its
         \<and> tl (vTxFees (sample_template 107)) = map (\<lambda>i. eFee (deref sample_mempool i)) its
         \<and> vout cb = [out0]
         \<and> sint (nValue out0) = 5500)
   \<and> tl (vTxFees (sample_template 107)) = [300, 200]
   \<and> GetBlockSubsidy sample_env 11 = 5000"
proof -
  have c: "CreateNewBlock sample_env sample_mempool (sample_tip 7) [] = Inr (sample_template 107)"
    using sample_CreateNewBlock[of 7] by simp
  from CreateNewBlock_coinbase_value[OF c]
  obtain cb out0 its where
    v: "vtx (block (sample_template 107)) = cb # map (\<lambda>i. eTx (deref sample_mempool i)) its"
    and fe: "tl (vTxFees (sample_template 107)) = map (\<lambda>i. eFee (deref sample_mempool i)) its"
    and o: "vout cb = [out0]"
    and val: "nValue out0 = (\<Sum>i\<leftarrow>its. eFee (deref sample_mempool i))
                             + GetBlockSubsidy sample_env (tip_nHeight (sample_tip 7) + 1)"
    by blast
  have fees: "tl (vTxFees (sample_template 107)) = [300, 200]" by (simp add: sample_template_def)
  have sub: "GetBlockSubsidy sample_env h = 5000" for h by (simp add: sample_env_def)
  have "(\<Sum>i\<leftarrow>its. eFee (deref sample_mempool i)) = sum_list (tl (vTxFees (sample_template 107)))"
    unfolding fe by (simp add: comp_def)
  then have "nValue out0 = 5500" unfolding val fees sub by simp
  then have "sint (nValue out0) = 5500" by simp
  with c v fe o fees sub show ?thesis by blast
qed


lemma sample_parent_link: "(3, 2) \<in> (parentRel sample_mempool)\<^sup>+"
  unfolding sample_parentRel trancl_one by simp




text \<open>
  C4.  Whenever \<^verbatim>\<open>CreateNewBlock\<close> returns a template from a consistent pool, every
  in-pool ancestor of a transaction behind the coinbase stands in the block, behind the
  coinbase and before that transaction.
\<close>

theorem CreateNewBlock_topological_order:
  assumes "CreateNewBlock env mp pindexPrev scriptPubKeyIn = Inr tmpl"
    and "mempool_consistent mp"
    and "0 < j" "j < length (vtx (block tmpl))"
    and "(hash (vtx (block tmpl) ! j), a) \<in> (parentRel mp)\<^sup>+"
  shows "\<exists>i. 0 < i \<and> i < j \<and> hash (vtx (block tmpl) ! i) = a"
proof -
  from assms(1) obtain its ba where a: "assembled mp ba its"
    and pf0: "mempool_consistent mp \<longrightarrow> parents_first mp its"
    and sub0: "mempool_consistent mp \<longrightarrow> set its \<subseteq> set (mapTx mp)"
    and f: "finishBlock env pindexPrev scriptPubKeyIn ba = Inr tmpl"
    and h: "nHeight ba = tip_nHeight pindexPrev + 1"
    by (rule CreateNewBlock_assembled) blast
  have pf: "parents_first mp its" using assms(2) pf0 by blast
  have sub: "set its \<subseteq> set (mapTx mp)" using assms(2) sub0 by blast
  obtain cb where v: "vtx (block tmpl) = cb # map (\<lambda>i. eTx (deref mp i)) its"
    using finishBlock_result(1)[OF f a] by blast
  have hs: "hash (eTx (deref mp c)) = c" if "c \<in> set (mapTx mp)" for c
    using assms(2) that unfolding mempool_consistent_def by blast
  have at: "hash (vtx (block tmpl) ! Suc k) = its ! k" if "k < length its" for k
  proof -
    have "its ! k \<in> set (mapTx mp)" using that sub by (auto dest: nth_mem)
    then show ?thesis using that by (simp add: v hs)
  qed
  obtain k where j: "j = Suc k" using assms(3) by (cases j) simp_all
  have k: "k < length its" using assms(4) unfolding v j by simp
  have "(its ! k, a) \<in> (parentRel mp)\<^sup>+" using assms(5) unfolding j at[OF k] .
  with pf k have "a \<in> set (take k its)" by (rule parents_first_ancestors)
  then obtain m where m: "m < k" "its ! m = a"
    using k by (auto simp: in_set_conv_nth)
  have "hash (vtx (block tmpl) ! Suc m) = a" using at[of m] m k by simp
  then show ?thesis using m(1) unfolding j by (intro exI[of _ "Suc m"]) simp
qed

theorem CreateNewBlock_topological_order_witness:
  "CreateNewBlock sample_env sample_mempool (sample_tip 7) [] = Inr (sample_template 107)
   \<and> mempool_consistent sample_mempool
   \<and> hash (vtx (block (sample_template 107)) ! 2) = 3
   \<and> (3, 2) \<in> (parentRel sample_mempool)\<^sup>+
   \<and> (\<exists>i. 0 < i \<and> i < 2 \<and> hash (vtx (block (sample_template 107)) ! i) = 2)"
proof -
  have c: "CreateNewBlock sample_env sample_mempool (sample_tip 7) [] = Inr (sample_template 107)"
    using sample_CreateNewBlock[of 7] by simp
  have h: "hash (vtx (block (sample_template 107)) ! 2) = 3"
    by (simp add: sample_template_def sample_pool_tx_def)
  have l: "length (vtx (block (sample_template 107))) = 3" by (simp add: sample_template_def)
  have "\<exists>i. 0 < i \<and> i < 2 \<and> hash (vtx (block (sample_template 107)) ! i) = 2"
    by (rule CreateNewBlock_topological_order[OF c sample_consistent, of 2 2])
       (use h l sample_parent_link in simp_all)
  with c sample_consistent h sample_parent_link show ?thesis by blast
qed

end
